theory Spec2Isabelle
  imports Complex_Main "HOL-Library.Word"
begin

section \<open>The TICooperator plugin\<close>

text \<open>
  The source holds two listings of the plugin's implementation file. The first listing
  (lines 1 to 404) keeps the selected addresses in a \<^verbatim>\<open>std::vector<size_t>\<close> and tests
  them with \<^verbatim>\<open>abs\<close>; the second listing (lines 405 to 839) keeps (address, id) pairs,
  records the addresses that were stepped on in \<^verbatim>\<open>isStepped\<close>, and writes a report at
  shutdown. A definition without a suffix embeds the second listing; the suffix
  \<open>_first\<close> marks the embedding of the same member function of the first listing.
\<close>

subsection \<open>Data of the engine, as far as the plugin touches it\<close>

type_synonym addr = "64 word"

type_synonym site = "addr \<times> 32 word"

text \<open>
  \<^verbatim>\<open>klee::Expr\<close>: the plugin only asks whether an expression is a \<^verbatim>\<open>ConstantExpr\<close>, reads
  its truth value, and wraps a condition with \<^verbatim>\<open>Expr::createIsZero\<close>.
\<close>

datatype expr = ConstantExpr bool | Symbolic nat | IsZero expr

fun is_ConstantExpr :: "expr \<Rightarrow> bool" where
  "is_ConstantExpr (ConstantExpr b) = True"
| "is_ConstantExpr e = False"

text \<open>
  An execution state: the program counter, the constraint manager, the concolic
  assignment (array, bytes), the symbolic arrays, the engine's identifier and the
  flag read by the assertion of the hook.
\<close>

record exec_state =
  pc_reg :: addr
  constraints :: "expr list"
  concolics :: "(nat \<times> 8 word list) list"
  symbolics :: "nat list"
  stateID :: "32 word"
  runningConcrete :: bool

text \<open>
  The calls into the engine whose code is outside the repository, taken as parameters:
  \<^verbatim>\<open>state->simplifyExpr\<close>, \<^verbatim>\<open>state->concolics->evaluate\<close>,
  \<^verbatim>\<open>solver->getInitialValues\<close> (constraints, query expression, arrays; \<open>None\<close> when it
  returns false) and the verdict of \<^verbatim>\<open>addConstraint\<close> on a state.
\<close>

record engine =
  simplifyExpr :: "exec_state \<Rightarrow> expr \<Rightarrow> expr"
  evaluate :: "(nat \<times> 8 word list) list \<Rightarrow> expr \<Rightarrow> expr"
  getInitialValues :: "expr list \<Rightarrow> expr \<Rightarrow> nat list \<Rightarrow> 8 word list list option"
  addConstraintOk :: "exec_state \<Rightarrow> expr \<Rightarrow> bool"

subsection \<open>The site test of the branch hook\<close>

text \<open>
  Second listing, lines 625 to 631: the predicate handed to \<^verbatim>\<open>std::find_if\<close>, on
  unsigned 64-bit values.
\<close>

definition site_pred :: "addr \<Rightarrow> site \<Rightarrow> bool" where
  "site_pred currentPc e =
     (if currentPc < fst e then False else currentPc - fst e < 0x10)"

text \<open>
  \<^verbatim>\<open>abs\<close> on a \<^verbatim>\<open>long long\<close>, in 64-bit two's complement: a negative value is negated, and
  the negation wraps, so that the least value is its own absolute value.
\<close>

definition abs_ll :: "64 word \<Rightarrow> 64 word" where
  "abs_ll d = (if sint d < 0 then - d else d)"

text \<open>
  First listing, line 211: the test of one address. Both operands are cast to
  \<^verbatim>\<open>long long\<close>, which keeps their 64 bits; the subtraction is that of the machine and wraps
  around (where it overflows the source is undefined, and the compiled code yields the
  wrapped difference); the absolute value is compared with 0x10 as a signed value.
\<close>

definition near_first :: "addr \<Rightarrow> addr \<Rightarrow> bool" where
  "near_first currentPc a = (sint (abs_ll (currentPc - a)) < 0x10)"

text \<open>First listing, lines 209 to 218: the loop over the vector, left at the first hit.\<close>

fun is_uncovered_first :: "addr \<Rightarrow> addr list \<Rightarrow> bool" where
  "is_uncovered_first currentPc [] = False"
| "is_uncovered_first currentPc (a # as) =
     (if near_first currentPc a then True else is_uncovered_first currentPc as)"

subsection \<open>The plugin object and what it writes\<close>

text \<open>
  Modelled from the spec: the header in the source declares \<^verbatim>\<open>retAddr\<close> as a vector of
  addresses, which is the registry of the first listing, and does not declare the
  members \<^verbatim>\<open>retAddr\<close> and \<^verbatim>\<open>isStepped\<close> that the second listing uses. The spec describes the
  registry as an ordered collection of sites, uniquely keyed by address: it is the list
  of the sites in the order in which the listing iterates over them. The listing calls
  \<^verbatim>\<open>find\<close> and \<^verbatim>\<open>emplace\<close> on \<^verbatim>\<open>isStepped\<close> with an address: it is a set of addresses, and the
  spec's visited flag of a site is the membership of its address in it.
\<close>

type_synonym registry = "site list"

type_synonym stepped = "addr set"

datatype error = CheckFailed | Aborted | AssertFailed | BadStatePointer | OutOfRange | Exited

text \<open>
  The arguments of the \<^verbatim>\<open>snprintf\<close> that builds the test-case label:
  \<^verbatim>\<open>"/id:%06u-%lx-%u"\<close> in the second listing, \<^verbatim>\<open>"/id:%06u"\<close> in the first.
\<close>

datatype label = IdAddrCmp "32 word" addr "32 word" | IdOnly "32 word"

text \<open>
  A line of \<^verbatim>\<open>Solving.stats\<close>: the row of \<^verbatim>\<open>onTimer\<close> (user time, solved, unsolved,
  total) or the closing row of \<^verbatim>\<open>onEngineShutdown\<close> (user time, solvedBranch,
  failedBranch, \<^verbatim>\<open>retAddr.size()\<close>).
\<close>

datatype stat_row =
  Stats real "32 word" "32 word" "32 word"
| Summary real "32 word" "32 word" "64 word"

record ofstream =
  buffered :: "stat_row list"
  written :: "stat_row list"

definition put :: "stat_row \<Rightarrow> ofstream \<Rightarrow> ofstream" where
  "put r f = f\<lparr>buffered := buffered f @ [r]\<rparr>"

definition flush :: "ofstream \<Rightarrow> ofstream" where
  "flush f = f\<lparr>buffered := [], written := written f @ buffered f\<rparr>"

text \<open>
  The members of the plugin (\<^verbatim>\<open>m_currentState\<close> is a pointer: \<open>None\<close> is
  \<^verbatim>\<open>nullptr\<close>, \<open>Some p\<close> the address \<open>p\<close> of the engine's store; the three counters are
  \<^verbatim>\<open>unsigned int\<close>), followed by what the plugin reaches through its calls: the
  content of \<^verbatim>\<open>failed.stats\<close> (\<open>None\<close>: not opened), the engine's store of execution
  states by address, the engine's next state identifier, the calls made to
  \<^verbatim>\<open>TestCaseGenerator::generateTestCases\<close> (label, state handed over) and the calls made
  to \<^verbatim>\<open>terminateState\<close> (pointer, message). The registry \<^verbatim>\<open>retAddr\<close> has type \<open>'r\<close>:
  a list of addresses in the first listing, a registry of sites in the second. The first
  listing has no \<^verbatim>\<open>isStepped\<close> and no \<^verbatim>\<open>failed.stats\<close>; its functions leave these two
  fields alone.
\<close>

record 'r ticoop =
  m_currentState :: "nat option"
  m_timeout :: real
  constraintsCount :: "32 word"
  solvedConstraints :: "32 word"
  unsolvedConstraints :: "32 word"
  retAddr :: 'r
  isStepped :: stepped
  statOfs :: ofstream
  failedOfs :: "site list option"
  states :: "(nat \<times> exec_state) list"
  nextStateID :: "32 word"
  testCases :: "(label \<times> exec_state) list"
  terminated :: "(nat option \<times> string) list"

subsection \<open>The engine's store\<close>

fun fresh :: "(nat \<times> 'a) list \<Rightarrow> nat" where
  "fresh [] = 0"
| "fresh (p # ps) = max (Suc (fst p)) (fresh ps)"

definition store_put :: "nat \<Rightarrow> 'a \<Rightarrow> (nat \<times> 'a) list \<Rightarrow> (nat \<times> 'a) list" where
  "store_put p v hp = map (\<lambda>q. if fst q = p then (p, v) else q) hp"

definition store_delete :: "nat \<Rightarrow> (nat \<times> 'a) list \<Rightarrow> (nat \<times> 'a) list" where
  "store_delete p hp = filter (\<lambda>q. fst q \<noteq> p) hp"

text \<open>
  \<^verbatim>\<open>state->clone()\<close> is the engine's. As the spec describes it, it is a full copy of the
  state (constraints, concolic assignment, symbolic arrays); the copy lies at an address
  not in use and is numbered with the engine's next identifier.
\<close>

definition clone :: "exec_state \<Rightarrow> 'r ticoop \<Rightarrow> nat \<times> exec_state \<times> 'r ticoop" where
  "clone st w =
     (let p = fresh (states w); b = st\<lparr>stateID := nextStateID w\<rparr>
      in (p, b, w\<lparr>states := states w @ [(p, b)], nextStateID := nextStateID w + 1\<rparr>))"

subsection \<open>generateTestcase\<close>

text \<open>
  Second listing, lines 697 to 735. \<open>branchedState\<close> is the address of the clone; each
  mutation of the clone is written to the store at that address; the clone is deleted at
  the end. \<^verbatim>\<open>concreteObjects[i]\<close> is read for every index of \<^verbatim>\<open>symbObjects\<close>: a shorter
  vector is the error \<open>OutOfRange\<close>.
\<close>

definition generateTestcase ::
  "engine \<Rightarrow> exec_state \<Rightarrow> expr \<Rightarrow> bool \<Rightarrow> nat list \<Rightarrow> 8 word list list \<Rightarrow> addr \<Rightarrow> 32 word
     \<Rightarrow> 'r ticoop \<Rightarrow> error + 'r ticoop" where
  "generateTestcase eng st condition conditionIsTrue symbObjects concreteObjects ret_addr cmpId w =
     (case clone st w of (branchedState, b0, w1) \<Rightarrow>
        if length concreteObjects < length symbObjects then Inl OutOfRange
        else
          let b1 = b0\<lparr>concolics := zip symbObjects concreteObjects\<rparr>;
              w2 = w1\<lparr>states := store_put branchedState b1 (states w1)\<rparr>;
              c = (if conditionIsTrue then IsZero condition else condition)
          in if \<not> addConstraintOk eng b1 c then Inl Aborted
             else
               let b2 = b1\<lparr>constraints := constraints b1 @ [c]\<rparr>;
                   w3 = w2\<lparr>states := store_put branchedState b2 (states w2)\<rparr>;
                   w4 = w3\<lparr>testCases := testCases w3 @ [(IdAddrCmp (stateID b2 - 1) ret_addr cmpId, b2)]\<rparr>
               in Inr (w4\<lparr>states := store_delete branchedState (states w4)\<rparr>))"

text \<open>First listing, lines 254 to 291: the same, with the label \<^verbatim>\<open>"/id:%06u"\<close>.\<close>

definition generateTestcase_first ::
  "engine \<Rightarrow> exec_state \<Rightarrow> expr \<Rightarrow> bool \<Rightarrow> nat list \<Rightarrow> 8 word list list
     \<Rightarrow> 'r ticoop \<Rightarrow> error + 'r ticoop" where
  "generateTestcase_first eng st condition conditionIsTrue symbObjects concreteObjects w =
     (case clone st w of (branchedState, b0, w1) \<Rightarrow>
        if length concreteObjects < length symbObjects then Inl OutOfRange
        else
          let b1 = b0\<lparr>concolics := zip symbObjects concreteObjects\<rparr>;
              w2 = w1\<lparr>states := store_put branchedState b1 (states w1)\<rparr>;
              c = (if conditionIsTrue then IsZero condition else condition)
          in if \<not> addConstraintOk eng b1 c then Inl Aborted
             else
               let b2 = b1\<lparr>constraints := constraints b1 @ [c]\<rparr>;
                   w3 = w2\<lparr>states := store_put branchedState b2 (states w2)\<rparr>;
                   w4 = w3\<lparr>testCases := testCases w3 @ [(IdOnly (stateID b2 - 1), b2)]\<rparr>
               in Inr (w4\<lparr>states := store_delete branchedState (states w4)\<rparr>))"

subsection \<open>onStateForkDecide\<close>

text \<open>
  Lines 609 and 610 (184 and 185 in the first listing): the first state the hook sees
  becomes \<^verbatim>\<open>m_currentState\<close>.
\<close>

definition adopt :: "nat \<Rightarrow> 'r ticoop \<Rightarrow> 'r ticoop" where
  "adopt state w = (if m_currentState w = None then w\<lparr>m_currentState := Some state\<rparr> else w)"

text \<open>
  Second listing, lines 601 to 695. The arguments are the pointer \<open>state\<close>, the
  condition and the in/out flag \<open>allowForking\<close>, whose value on return is the second
  component of the result. \<^verbatim>\<open>check\<close> and \<^verbatim>\<open>abort\<close> end the process: they are the results
  \<open>Inl CheckFailed\<close> and \<open>Inl Aborted\<close>; the \<^verbatim>\<open>assert\<close> is \<open>Inl AssertFailed\<close>; a pointer
  that is not in the engine's store is \<open>Inl BadStatePointer\<close>.
\<close>

definition onStateForkDecide ::
  "engine \<Rightarrow> nat \<Rightarrow> expr \<Rightarrow> bool \<Rightarrow> registry ticoop \<Rightarrow> error + (registry ticoop \<times> bool)" where
  "onStateForkDecide eng state condition0 allowForking w0 =
     (let w = adopt state w0
      in case map_of (states w) state of
           None \<Rightarrow> Inl BadStatePointer
         | Some st \<Rightarrow>
             if runningConcrete st then Inl AssertFailed
             else
               let condition = simplifyExpr eng st condition0
               in if is_ConstantExpr condition then Inr (w, False)
                  else
                    let currentPc = pc_reg st
                    in (case find (site_pred currentPc) (retAddr w) of
                         None \<Rightarrow> Inr (w, False)
                       | Some (ret_addr, cmpId) \<Rightarrow>
                           let w1 = (if ret_addr \<notin> isStepped w
                                     then w\<lparr>isStepped := insert ret_addr (isStepped w)\<rparr>
                                     else w)
                           in (case evaluate eng (concolics st) condition of
                                ConstantExpr conditionIsTrue \<Rightarrow>
                                  let tmpConstraints =
                                        constraints st @
                                          [if conditionIsTrue then IsZero condition else condition];
                                      symbObjects = symbolics st;
                                      w2 = w1\<lparr>constraintsCount := constraintsCount w1 + 1\<rparr>
                                  in (case getInitialValues eng tmpConstraints (ConstantExpr False) symbObjects of
                                        None \<Rightarrow>
                                          Inr (w2\<lparr>unsolvedConstraints := unsolvedConstraints w2 + 1\<rparr>, False)
                                      | Some concreteObjects \<Rightarrow>
                                          (case generateTestcase eng st condition conditionIsTrue symbObjects
                                                  concreteObjects ret_addr cmpId
                                                  (w2\<lparr>solvedConstraints := solvedConstraints w2 + 1\<rparr>) of
                                             Inl e \<Rightarrow> Inl e
                                           | Inr w3 \<Rightarrow> Inr (w3, False)))
                              | _ \<Rightarrow> Inl CheckFailed)))"

text \<open>
  First listing, lines 176 to 252: the condition is evaluated, and checked, before the
  vector of addresses is searched.
\<close>

definition onStateForkDecide_first ::
  "engine \<Rightarrow> nat \<Rightarrow> expr \<Rightarrow> bool \<Rightarrow> addr list ticoop \<Rightarrow> error + (addr list ticoop \<times> bool)" where
  "onStateForkDecide_first eng state condition0 allowForking w0 =
     (let w = adopt state w0
      in case map_of (states w) state of
           None \<Rightarrow> Inl BadStatePointer
         | Some st \<Rightarrow>
             if runningConcrete st then Inl AssertFailed
             else
               let condition = simplifyExpr eng st condition0
               in if is_ConstantExpr condition then Inr (w, False)
                  else
                    (case evaluate eng (concolics st) condition of
                      ConstantExpr conditionIsTrue \<Rightarrow>
                        let currentPc = pc_reg st
                        in if \<not> is_uncovered_first currentPc (retAddr w) then Inr (w, False)
                           else
                             let tmpConstraints =
                                   constraints st @
                                     [if conditionIsTrue then IsZero condition else condition];
                                 symbObjects = symbolics st;
                                 w2 = w\<lparr>constraintsCount := constraintsCount w + 1\<rparr>
                             in (case getInitialValues eng tmpConstraints (ConstantExpr False) symbObjects of
                                   None \<Rightarrow>
                                     Inr (w2\<lparr>unsolvedConstraints := unsolvedConstraints w2 + 1\<rparr>, False)
                                 | Some concreteObjects \<Rightarrow>
                                     (case generateTestcase_first eng st condition conditionIsTrue
                                             symbObjects concreteObjects
                                             (w2\<lparr>solvedConstraints := solvedConstraints w2 + 1\<rparr>) of
                                        Inl e \<Rightarrow> Inl e
                                      | Inr w3 \<Rightarrow> Inr (w3, False)))
                    | _ \<Rightarrow> Inl CheckFailed))"

subsection \<open>onTimer, handleOpcodeInvocation, onEngineShutdown\<close>

text \<open>
  Lines 585 to 599. \<^verbatim>\<open>klee::util::getUserTime()\<close> is read twice: \<open>t1\<close> goes into the
  row, \<open>t2\<close> is compared with \<^verbatim>\<open>m_timeout\<close>. The call of \<^verbatim>\<open>terminateState\<close> is recorded
  with the pointer it dereferences.
\<close>

definition onTimer :: "real \<Rightarrow> real \<Rightarrow> 'r ticoop \<Rightarrow> 'r ticoop" where
  "onTimer t1 t2 w =
     (let w1 = w\<lparr>statOfs :=
                  flush (put (Stats t1 (solvedConstraints w) (unsolvedConstraints w) (constraintsCount w))
                           (statOfs w))\<rparr>
      in if m_timeout w1 \<le> t2
         then w1\<lparr>terminated := terminated w1 @ [(m_currentState w1, ''timeout'')]\<rparr>
         else w1)"

text \<open>
  Lines 812 to 836. \<open>mem_read\<close> is the \<^verbatim>\<open>Command\<close> field read from guest memory, \<open>None\<close>
  when the read fails; \<^verbatim>\<open>sizeof(command)\<close> is 16 (a 4-byte enum, padding, an 8-byte
  union); \<^verbatim>\<open>TICOOP_PRINT_STATISTICS\<close> is the enumerator 0.
\<close>

definition handleOpcodeInvocation ::
  "64 word \<Rightarrow> 32 word option \<Rightarrow> real \<Rightarrow> real \<Rightarrow> 'r ticoop \<Rightarrow> 'r ticoop" where
  "handleOpcodeInvocation guestDataSize mem_read t1 t2 w =
     (if guestDataSize \<noteq> 16 then w
      else case mem_read of
             None \<Rightarrow> w
           | Some command \<Rightarrow> if command = 0 then onTimer t1 t2 w else w)"

text \<open>
  Lines 564 to 572: the loop over the registry, with the report lines written so far
  and the two \<^verbatim>\<open>unsigned int\<close> counters \<open>solvedBranch\<close>, \<open>failedBranch\<close>.
\<close>

fun classify :: "site list \<Rightarrow> addr set \<Rightarrow> site list \<times> 32 word \<times> 32 word \<Rightarrow> site list \<times> 32 word \<times> 32 word" where
  "classify [] stepped acc = acc"
| "classify (e # es) stepped (report, solvedBranch, failedBranch) =
     (if fst e \<notin> stepped
      then classify es stepped (report @ [e], solvedBranch, failedBranch + 1)
      else classify es stepped (report, solvedBranch + 1, failedBranch))"

text \<open>
  Lines 558 to 583. \<open>opened\<close> is the test \<^verbatim>\<open>if (failedOfs)\<close>; \<open>t3\<close> is the third reading
  of the user time. Closing the stream flushes it.
\<close>

definition onEngineShutdown :: "bool \<Rightarrow> real \<Rightarrow> real \<Rightarrow> real \<Rightarrow> registry ticoop \<Rightarrow> registry ticoop" where
  "onEngineShutdown opened t1 t2 t3 w =
     (case (if opened then classify (retAddr w) (isStepped w) ([], 0, 0) else ([], 0, 0)) of
        (report, solvedBranch, failedBranch) \<Rightarrow>
          let w1 = w\<lparr>failedOfs := (if opened then Some report else None)\<rparr>;
              w2 = onTimer t1 t2 w1
          in w2\<lparr>statOfs :=
                  flush (put (Summary t3 solvedBranch failedBranch (of_nat (length (retAddr w))))
                           (statOfs w2))\<rparr>)"

subsection \<open>Runs\<close>

text \<open>
  What happens to the plugin between \<^verbatim>\<open>initialize\<close> and shutdown: the engine calls the
  branch hook, the timer fires, the guest sends a command, or the engine itself changes
  its store of states and its identifier counter.
\<close>

datatype event =
  Branch nat expr bool
| Timer real real
| Opcode "64 word" "32 word option" real real
| Engine "(nat \<times> exec_state) list" "32 word"

fun step :: "engine \<Rightarrow> event \<Rightarrow> registry ticoop \<Rightarrow> error + registry ticoop" where
  "step eng (Branch state condition0 allowForking) w =
     (case onStateForkDecide eng state condition0 allowForking w of
        Inl e \<Rightarrow> Inl e
      | Inr r \<Rightarrow> Inr (fst r))"
| "step eng (Timer t1 t2) w = Inr (onTimer t1 t2 w)"
| "step eng (Opcode guestDataSize mem_read t1 t2) w =
     Inr (handleOpcodeInvocation guestDataSize mem_read t1 t2 w)"
| "step eng (Engine hp n) w = Inr (w\<lparr>states := hp, nextStateID := n\<rparr>)"

fun run :: "engine \<Rightarrow> event list \<Rightarrow> registry ticoop \<Rightarrow> error + registry ticoop" where
  "run eng [] w = Inr w"
| "run eng (ev # evs) w =
     (case step eng ev w of Inl e \<Rightarrow> Inl e | Inr w' \<Rightarrow> run eng evs w')"

subsection \<open>The plugin as a call leaves it\<close>

text \<open>
  \<^verbatim>\<open>generateTestcase\<close> once more (lines 697 to 735), now with the plugin and the engine
  as the call leaves them, also when the call ends the process: the first component is
  \<open>None\<close> when the function returns and the error otherwise. The bindings are replaced
  before the constraint is added, so that the clone is in the store, with its new
  bindings, when \<^verbatim>\<open>abort\<close> is called.
\<close>

definition generateTestcase_left ::
  "engine \<Rightarrow> exec_state \<Rightarrow> expr \<Rightarrow> bool \<Rightarrow> nat list \<Rightarrow> 8 word list list \<Rightarrow> addr \<Rightarrow> 32 word
     \<Rightarrow> 'r ticoop \<Rightarrow> error option \<times> 'r ticoop" where
  "generateTestcase_left eng st condition conditionIsTrue symbObjects concreteObjects ret_addr cmpId w =
     (case clone st w of (branchedState, b0, w1) \<Rightarrow>
        let b1 = b0\<lparr>concolics := zip symbObjects concreteObjects\<rparr>;
            w2 = w1\<lparr>states := store_put branchedState b1 (states w1)\<rparr>;
            c = (if conditionIsTrue then IsZero condition else condition)
        in if length concreteObjects < length symbObjects then (Some OutOfRange, w2)
           else if \<not> addConstraintOk eng b1 c then (Some Aborted, w2)
           else
             let b2 = b1\<lparr>constraints := constraints b1 @ [c]\<rparr>;
                 w3 = w2\<lparr>states := store_put branchedState b2 (states w2)\<rparr>;
                 w4 = w3\<lparr>testCases := testCases w3 @ [(IdAddrCmp (stateID b2 - 1) ret_addr cmpId, b2)]\<rparr>
             in (None, w4\<lparr>states := store_delete branchedState (states w4)\<rparr>))"

text \<open>
  \<^verbatim>\<open>onStateForkDecide\<close> once more (second listing, lines 601 to 695), in the same way: the
  error, if the call ends the process, the plugin as the call leaves it, and the flag.
\<close>

definition onStateForkDecide_left ::
  "engine \<Rightarrow> nat \<Rightarrow> expr \<Rightarrow> bool \<Rightarrow> registry ticoop \<Rightarrow> error option \<times> registry ticoop \<times> bool" where
  "onStateForkDecide_left eng state condition0 allowForking w0 =
     (let w = adopt state w0
      in case map_of (states w) state of
           None \<Rightarrow> (Some BadStatePointer, w, False)
         | Some st \<Rightarrow>
             if runningConcrete st then (Some AssertFailed, w, False)
             else
               let condition = simplifyExpr eng st condition0
               in if is_ConstantExpr condition then (None, w, False)
                  else
                    let currentPc = pc_reg st
                    in (case find (site_pred currentPc) (retAddr w) of
                         None \<Rightarrow> (None, w, False)
                       | Some (ret_addr, cmpId) \<Rightarrow>
                           let w1 = (if ret_addr \<notin> isStepped w
                                     then w\<lparr>isStepped := insert ret_addr (isStepped w)\<rparr>
                                     else w)
                           in (case evaluate eng (concolics st) condition of
                                ConstantExpr conditionIsTrue \<Rightarrow>
                                  let tmpConstraints =
                                        constraints st @
                                          [if conditionIsTrue then IsZero condition else condition];
                                      symbObjects = symbolics st;
                                      w2 = w1\<lparr>constraintsCount := constraintsCount w1 + 1\<rparr>
                                  in (case getInitialValues eng tmpConstraints (ConstantExpr False) symbObjects of
                                        None \<Rightarrow>
                                          (None, w2\<lparr>unsolvedConstraints := unsolvedConstraints w2 + 1\<rparr>, False)
                                      | Some concreteObjects \<Rightarrow>
                                          (case generateTestcase_left eng st condition conditionIsTrue
                                                  symbObjects concreteObjects ret_addr cmpId
                                                  (w2\<lparr>solvedConstraints := solvedConstraints w2 + 1\<rparr>) of
                                             (e, w3) \<Rightarrow> (e, w3, False)))
                              | _ \<Rightarrow> (Some CheckFailed, w1, False))))"

text \<open>
  A run with the plugin as it is when the run ends: after the last event, or in the call
  that ends the process.
\<close>

fun step_left :: "engine \<Rightarrow> event \<Rightarrow> registry ticoop \<Rightarrow> error option \<times> registry ticoop" where
  "step_left eng (Branch state condition0 allowForking) w =
     (case onStateForkDecide_left eng state condition0 allowForking w of
        (e, w', allowForking') \<Rightarrow> (e, w'))"
| "step_left eng (Timer t1 t2) w = (None, onTimer t1 t2 w)"
| "step_left eng (Opcode guestDataSize mem_read t1 t2) w =
     (None, handleOpcodeInvocation guestDataSize mem_read t1 t2 w)"
| "step_left eng (Engine hp n) w = (None, w\<lparr>states := hp, nextStateID := n\<rparr>)"

fun run_left :: "engine \<Rightarrow> event list \<Rightarrow> registry ticoop \<Rightarrow> error option \<times> registry ticoop" where
  "run_left eng [] w = (None, w)"
| "run_left eng (ev # evs) w =
     (case step_left eng ev w of
        (None, w') \<Rightarrow> run_left eng evs w'
      | (Some e, w') \<Rightarrow> (Some e, w'))"

subsection \<open>readSelectedRetAddr and initialize\<close>

text \<open>
  The input stream of \<^verbatim>\<open>readSelectedRetAddr\<close>: the characters not yet read and the two
  state bits the function depends on. A file that cannot be opened gives a stream with
  \<^verbatim>\<open>failbit\<close> set.
\<close>

record ifstream =
  content :: string
  failbit :: bool
  eofbit :: bool

definition open_ifstream :: "string option \<Rightarrow> ifstream" where
  "open_ifstream file =
     (case file of
        None \<Rightarrow> \<lparr>content = [], failbit = True, eofbit = False\<rparr>
      | Some s \<Rightarrow> \<lparr>content = s, failbit = False, eofbit = False\<rparr>)"

definition isspace :: "char \<Rightarrow> bool" where
  "isspace c = (c \<in> set [CHR '' '', CHR 0x09, CHR 0x0A, CHR 0x0B, CHR 0x0C, CHR 0x0D])"

definition digit_of :: "nat \<Rightarrow> char \<Rightarrow> nat option" where
  "digit_of base c =
     (let n = (of_char c :: nat);
          d = (if 48 \<le> n \<and> n \<le> 57 then Some (n - 48)
               else if 97 \<le> n \<and> n \<le> 102 then Some (n - 87)
               else if 65 \<le> n \<and> n \<le> 70 then Some (n - 55)
               else None)
      in case d of None \<Rightarrow> None | Some v \<Rightarrow> if v < base then Some v else None)"

fun digits :: "nat \<Rightarrow> string \<Rightarrow> nat \<Rightarrow> nat \<Rightarrow> nat \<times> nat \<times> string" where
  "digits base [] v k = (v, k, [])"
| "digits base (c # cs) v k =
     (case digit_of base c of
        None \<Rightarrow> (v, k, c # cs)
      | Some d \<Rightarrow> digits base cs (v * base + d) (Suc k))"

text \<open>
  \<^verbatim>\<open>ifs >> x\<close> for an unsigned \<open>x\<close>, in base 16 (after \<^verbatim>\<open>std::hex\<close>) or 10 (after
  \<^verbatim>\<open>std::dec\<close>), as the standard library's formatted input does it. A stream that is not
  good gets \<^verbatim>\<open>failbit\<close> and \<open>x\<close> keeps its value, and so does a stream that ends while
  white space is skipped (which also sets \<^verbatim>\<open>eofbit\<close>). Then an optional sign, in base 16
  an optional \<^verbatim>\<open>0x\<close>, and the digits are read: no digit stores 0 and sets \<^verbatim>\<open>failbit\<close>; a
  value beyond the type stores the largest value and sets \<^verbatim>\<open>failbit\<close>; reading up to the
  end of the file sets \<^verbatim>\<open>eofbit\<close>.
\<close>

definition extract_unsigned :: "nat \<Rightarrow> ifstream \<Rightarrow> 'a::len word \<Rightarrow> ifstream \<times> 'a word" where
  "extract_unsigned base s x =
     (if failbit s \<or> eofbit s then (s\<lparr>failbit := True\<rparr>, x)
      else
        let r = dropWhile isspace (content s)
        in if r = [] then (s\<lparr>content := [], failbit := True, eofbit := True\<rparr>, x)
           else
             let negative = (hd r = CHR ''-'');
                 r1 = (if hd r = CHR ''-'' \<or> hd r = CHR ''+'' then tl r else r);
                 r2 = (if base = 16 \<and> (take 2 r1 = ''0x'' \<or> take 2 r1 = ''0X'') then drop 2 r1 else r1)
             in case digits base r2 0 0 of
                  (v, k, rest) \<Rightarrow>
                    let s1 = s\<lparr>content := rest, eofbit := (rest = [])\<rparr>
                    in if k = 0 then (s1\<lparr>failbit := True\<rparr>, 0)
                       else if 2 ^ LENGTH('a) \<le> v then (s1\<lparr>failbit := True\<rparr>, - 1)
                       else (s1, if negative then - of_nat v else of_nat v))"

text \<open>
  Modelled from the spec: \<^verbatim>\<open>retAddr.emplace\<close> of the second listing, on the registry whose
  declaration is not in the source. The spec keys the registry by address and takes the
  first match in registration order: the pair goes to the end, unless its address is in
  the registry already.
\<close>

definition emplace :: "site \<Rightarrow> registry \<Rightarrow> registry" where
  "emplace e reg = (if fst e \<in> fst ` set reg then reg else reg @ [e])"

text \<open>
  Lines 757 to 760: the loop \<^verbatim>\<open>while(!ifs.eof())\<close>. It has no bound in the source; the
  first argument bounds the number of passes, and \<open>None\<close> says that the loop has not
  ended within it. \<open>instRetAddr\<close> and \<open>cmpId\<close> are the two local variables, which the
  source does not initialise.
\<close>

fun read_loop :: "nat \<Rightarrow> ifstream \<Rightarrow> addr \<Rightarrow> 32 word \<Rightarrow> site list \<Rightarrow> site list option" where
  "read_loop 0 ifs instRetAddr cmpId reg = None"
| "read_loop (Suc fuel) ifs instRetAddr cmpId reg =
     (if eofbit ifs then Some reg
      else
        case extract_unsigned 16 ifs instRetAddr of
          (ifs1, instRetAddr1) \<Rightarrow>
            (case extract_unsigned 10 ifs1 cmpId of
               (ifs2, cmpId1) \<Rightarrow>
                 read_loop fuel ifs2 instRetAddr1 cmpId1 (emplace (instRetAddr1, cmpId1) reg)))"

text \<open>
  Lines 750 to 762. The result is the text sent to the debug stream and the registry.
\<close>

definition readSelectedRetAddr ::
  "nat \<Rightarrow> string option \<Rightarrow> addr \<Rightarrow> 32 word \<Rightarrow> site list \<Rightarrow> (string list \<times> site list) option" where
  "readSelectedRetAddr fuel file instRetAddr cmpId reg =
     (let ifs = open_ifstream file;
          msgs = (if failbit ifs then [''Unable to open ret_addr''] else [])
      in case read_loop fuel ifs instRetAddr cmpId reg of
           None \<Rightarrow> None
         | Some reg' \<Rightarrow> Some (msgs, reg'))"

text \<open>First listing, lines 306 to 321: addresses only, appended with \<^verbatim>\<open>push_back\<close>.\<close>

fun read_loop_first :: "nat \<Rightarrow> ifstream \<Rightarrow> addr \<Rightarrow> addr list \<Rightarrow> addr list option" where
  "read_loop_first 0 ifs instRetAddr reg = None"
| "read_loop_first (Suc fuel) ifs instRetAddr reg =
     (if eofbit ifs then Some reg
      else
        case extract_unsigned 16 ifs instRetAddr of
          (ifs1, instRetAddr1) \<Rightarrow> read_loop_first fuel ifs1 instRetAddr1 (reg @ [instRetAddr1]))"

definition readSelectedRetAddr_first ::
  "nat \<Rightarrow> string option \<Rightarrow> addr \<Rightarrow> addr list \<Rightarrow> (string list \<times> addr list) option" where
  "readSelectedRetAddr_first fuel file instRetAddr reg =
     (let ifs = open_ifstream file;
          msgs = (if failbit ifs then [''Unable to open ret_addr''] else [])
      in case read_loop_first fuel ifs instRetAddr reg of
           None \<Rightarrow> None
         | Some reg' \<Rightarrow> Some (msgs, reg'))"

text \<open>
  The plugin after the constructor (lines 478 to 488) and \<^verbatim>\<open>initialize\<close> (lines 490 to
  556), once the registry \<open>reg\<close> has been read: the pointer is null, the counters are 0,
  \<^verbatim>\<open>isStepped\<close> is empty, the timeout is 3600000, the statistics file is new. \<open>hp\<close> and
  \<open>n\<close> are the engine's store and identifier counter at that moment.
\<close>

definition started :: "'r \<Rightarrow> (nat \<times> exec_state) list \<Rightarrow> 32 word \<Rightarrow> 'r ticoop" where
  "started reg hp n =
     \<lparr>m_currentState = None, m_timeout = 3600000, constraintsCount = 0,
      solvedConstraints = 0, unsolvedConstraints = 0, retAddr = reg, isStepped = {},
      statOfs = \<lparr>buffered = [], written = []\<rparr>, failedOfs = None, states = hp,
      nextStateID = n, testCases = [], terminated = []\<rparr>"

text \<open>
  Lines 490 to 556 with \<^verbatim>\<open>initTestcaseDirectory\<close> (lines 737 to 748): \<open>mkdir_ok\<close> says
  whether the test-case directory could be created, otherwise the process exits.
  \<open>None\<close>: \<^verbatim>\<open>readSelectedRetAddr\<close> has not returned within the bound.
\<close>

definition initialize ::
  "bool \<Rightarrow> nat \<Rightarrow> string option \<Rightarrow> addr \<Rightarrow> 32 word \<Rightarrow> (nat \<times> exec_state) list \<Rightarrow> 32 word
     \<Rightarrow> (error + registry ticoop) option" where
  "initialize mkdir_ok fuel file instRetAddr cmpId hp n =
     (if \<not> mkdir_ok then Some (Inl Exited)
      else case readSelectedRetAddr fuel file instRetAddr cmpId [] of
             None \<Rightarrow> None
           | Some (msgs, reg) \<Rightarrow> Some (Inr (started reg hp n)))"

subsection \<open>Notions used to state the properties\<close>

text \<open>The alternate-path constraint built at lines 665 to 670 and 715 to 724.\<close>

definition alternate :: "bool \<Rightarrow> expr \<Rightarrow> expr" where
  "alternate conditionIsTrue condition = (if conditionIsTrue then IsZero condition else condition)"

text \<open>The clone as \<^verbatim>\<open>generateTestcase\<close> hands it to the test-case generator.\<close>

definition handed :: "exec_state \<Rightarrow> 32 word \<Rightarrow> nat list \<Rightarrow> 8 word list list \<Rightarrow> expr \<Rightarrow> exec_state" where
  "handed st n symbObjects concreteObjects c =
     st\<lparr>stateID := n, concolics := zip symbObjects concreteObjects,
        constraints := constraints st @ [c]\<rparr>"

text \<open>A statistics row whose first two counters add up to the third.\<close>

fun row_ok :: "stat_row \<Rightarrow> bool" where
  "row_ok (Stats t s u c) = (s + u = c)"
| "row_ok (Summary t v u n) = True"

text \<open>The state pointer of the first call of the branch hook in a list of events.\<close>

fun first_observed :: "event list \<Rightarrow> nat option" where
  "first_observed [] = None"
| "first_observed (Branch state condition0 allowForking # evs) = Some state"
| "first_observed (ev # evs) = first_observed evs"

text \<open>The sites of a registry that were stepped on, and those that were not.\<close>

definition visited_sites :: "site list \<Rightarrow> addr set \<Rightarrow> site list" where
  "visited_sites reg stepped = filter (\<lambda>e. fst e \<in> stepped) reg"

definition unvisited_sites :: "site list \<Rightarrow> addr set \<Rightarrow> site list" where
  "unvisited_sites reg stepped = filter (\<lambda>e. fst e \<notin> stepped) reg"

text \<open>
  The three counters agree, and so does every row of the statistics file, flushed or
  not.
\<close>

definition counters_ok :: "'r ticoop \<Rightarrow> bool" where
  "counters_ok w \<longleftrightarrow>
     solvedConstraints w + unsolvedConstraints w = constraintsCount w \<and>
     list_all row_ok (written (statOfs w) @ buffered (statOfs w))"

text \<open>
  The process ended in \<^verbatim>\<open>generateTestcase\<close>, after the solve was counted and before the
  request to the test-case generator.
\<close>

definition ended_in_handoff :: "error option \<Rightarrow> bool" where
  "ended_in_handoff e = (e = Some Aborted \<or> e = Some OutOfRange)"

text \<open>
  The pointer \<^verbatim>\<open>m_currentState\<close> can be dereferenced: it is not null and the engine's
  store holds a state at its address.
\<close>

definition tracked_state_live :: "'r ticoop \<Rightarrow> bool" where
  "tracked_state_live w =
     (case m_currentState w of None \<Rightarrow> False | Some p \<Rightarrow> map_of (states w) p \<noteq> None)"

text \<open>The plugin after a run, \<open>None\<close> when the run has ended the process.\<close>

definition after_run :: "error + 'w \<Rightarrow> 'w option" where
  "after_run r = (case r of Inl e \<Rightarrow> None | Inr w \<Rightarrow> Some w)"

text \<open>What the branch hook leaves behind when it returns, \<open>None\<close> when the process ends in it.\<close>

definition returned :: "error + ('w \<times> bool) \<Rightarrow> 'w option" where
  "returned r = (case r of Inl e \<Rightarrow> None | Inr p \<Rightarrow> Some (fst p))"

subsection \<open>A scenario for concrete runs\<close>

text \<open>
  An engine whose simplifier leaves the condition as it is, whose concolic evaluation
  yields true, whose solver answers with the byte 0x41 for one array and which accepts
  the constraint on the clone; and an execution state with one symbolic array at a given
  program counter.
\<close>

definition example_engine :: engine where
  "example_engine =
     \<lparr>simplifyExpr = (\<lambda>st e. e), evaluate = (\<lambda>bs e. ConstantExpr True),
      getInitialValues = (\<lambda>cs q arrs. Some [[0x41]]), addConstraintOk = (\<lambda>st e. True)\<rparr>"

text \<open>The same engine with a concolic evaluation that does not reach a constant.\<close>

definition stuck_engine :: engine where
  "stuck_engine =
     \<lparr>simplifyExpr = (\<lambda>st e. e), evaluate = (\<lambda>bs e. e),
      getInitialValues = (\<lambda>cs q arrs. Some [[0x41]]), addConstraintOk = (\<lambda>st e. True)\<rparr>"

text \<open>The first engine again, refusing the constraint on the clone.\<close>

definition rejecting_engine :: engine where
  "rejecting_engine =
     \<lparr>simplifyExpr = (\<lambda>st e. e), evaluate = (\<lambda>bs e. ConstantExpr True),
      getInitialValues = (\<lambda>cs q arrs. Some [[0x41]]), addConstraintOk = (\<lambda>st e. False)\<rparr>"

definition example_state :: "addr \<Rightarrow> exec_state" where
  "example_state pc =
     \<lparr>pc_reg = pc, constraints = [], concolics = [(0, [0])], symbolics = [0], stateID = 0,
      runningConcrete = False\<rparr>"

section \<open>Properties\<close>

subsection \<open>The store and the clone\<close>

lemma fresh_gt: "q \<in> set hp \<Longrightarrow> fst q < fresh hp"
  by (induction hp) auto

lemma fresh_not_in: "\<forall>q \<in> set hp. fst q \<noteq> fresh hp"
  using fresh_gt by fastforce

lemma store_clone_cycle:
  "store_delete (fresh hp) (store_put (fresh hp) v (store_put (fresh hp) u (hp @ [(fresh hp, b)]))) = hp"
  using fresh_not_in [of hp]
  by (simp add: store_put_def store_delete_def filter_id_conv cong: map_cong)

lemma generateTestcase_Inr:
  assumes "generateTestcase eng st condition conditionIsTrue symbObjects concreteObjects ret_addr cmpId w = Inr w'"
  shows "w' = w\<lparr>nextStateID := nextStateID w + 1,
               testCases := testCases w @
                 [(IdAddrCmp (nextStateID w - 1) ret_addr cmpId,
                   handed st (nextStateID w) symbObjects concreteObjects
                     (alternate conditionIsTrue condition))]\<rparr>"
  using assms
  by (auto simp: generateTestcase_def clone_def Let_def store_clone_cycle handed_def alternate_def
      split: if_splits)

lemma generateTestcase_returns:
  assumes "length symbObjects \<le> length concreteObjects"
    and "addConstraintOk eng
           (st\<lparr>stateID := nextStateID w, concolics := zip symbObjects concreteObjects\<rparr>)
           (alternate conditionIsTrue condition)"
  shows "\<exists>w'. generateTestcase eng st condition conditionIsTrue symbObjects concreteObjects ret_addr cmpId w
           = Inr w'"
  using assms by (simp add: generateTestcase_def clone_def Let_def alternate_def)

subsection \<open>The branch hook, case by case\<close>

lemma adopt_fields [simp]:
  "states (adopt state w) = states w"
  "retAddr (adopt state w) = retAddr w"
  "isStepped (adopt state w) = isStepped w"
  "constraintsCount (adopt state w) = constraintsCount w"
  "solvedConstraints (adopt state w) = solvedConstraints w"
  "unsolvedConstraints (adopt state w) = unsolvedConstraints w"
  "nextStateID (adopt state w) = nextStateID w"
  "testCases (adopt state w) = testCases w"
  "statOfs (adopt state w) = statOfs w"
  "terminated (adopt state w) = terminated w"
  "m_timeout (adopt state w) = m_timeout w"
  "failedOfs (adopt state w) = failedOfs w"
  by (simp_all add: adopt_def)

lemma adopt_pointer:
  "m_currentState (adopt state w) = (case m_currentState w of None \<Rightarrow> Some state | Some p \<Rightarrow> Some p)"
  by (simp add: adopt_def split: option.split)

lemma mark_stepped:
  "(if a \<notin> isStepped w
    then (adopt s w)\<lparr>isStepped := insert a (isStepped (adopt s w))\<rparr> else adopt s w)
     = (adopt s w)\<lparr>isStepped := insert a (isStepped w)\<rparr>"
  by (simp add: insert_absorb adopt_def)

lemma hook_cases:
  assumes "onStateForkDecide eng state c af w = Inr (w', af')"
  obtains
    (skipped) st where
      "map_of (states w) state = Some st" "\<not> runningConcrete st" "af' = False"
      "is_ConstantExpr (simplifyExpr eng st c) \<or> find (site_pred (pc_reg st)) (retAddr w) = None"
      "w' = adopt state w"
  | (failed) st ret_addr cmpId b where
      "map_of (states w) state = Some st" "\<not> runningConcrete st" "af' = False"
      "\<not> is_ConstantExpr (simplifyExpr eng st c)"
      "find (site_pred (pc_reg st)) (retAddr w) = Some (ret_addr, cmpId)"
      "evaluate eng (concolics st) (simplifyExpr eng st c) = ConstantExpr b"
      "getInitialValues eng (constraints st @ [alternate b (simplifyExpr eng st c)])
         (ConstantExpr False) (symbolics st) = None"
      "w' = (adopt state w)\<lparr>isStepped := insert ret_addr (isStepped w),
               constraintsCount := constraintsCount w + 1,
               unsolvedConstraints := unsolvedConstraints w + 1\<rparr>"
  | (solved) st ret_addr cmpId b vals where
      "map_of (states w) state = Some st" "\<not> runningConcrete st" "af' = False"
      "\<not> is_ConstantExpr (simplifyExpr eng st c)"
      "find (site_pred (pc_reg st)) (retAddr w) = Some (ret_addr, cmpId)"
      "evaluate eng (concolics st) (simplifyExpr eng st c) = ConstantExpr b"
      "getInitialValues eng (constraints st @ [alternate b (simplifyExpr eng st c)])
         (ConstantExpr False) (symbolics st) = Some vals"
      "w' = (adopt state w)\<lparr>isStepped := insert ret_addr (isStepped w),
               constraintsCount := constraintsCount w + 1,
               solvedConstraints := solvedConstraints w + 1,
               nextStateID := nextStateID w + 1,
               testCases := testCases w @
                 [(IdAddrCmp (nextStateID w - 1) ret_addr cmpId,
                   handed st (nextStateID w) (symbolics st) vals
                     (alternate b (simplifyExpr eng st c)))]\<rparr>"
proof -
  let ?w = "adopt state w"
  from assms obtain st where st: "map_of (states w) state = Some st"
    by (cases "map_of (states w) state") (simp_all add: onStateForkDecide_def Let_def)
  from assms st have rc: "\<not> runningConcrete st"
    by (auto simp: onStateForkDecide_def Let_def split: if_splits)
  let ?c = "simplifyExpr eng st c"
  let ?f = "find (site_pred (pc_reg st)) (retAddr w)"
  show thesis
  proof (cases "is_ConstantExpr ?c \<or> ?f = None")
    case True
    have "w' = ?w \<and> af' = False"
    proof (cases "is_ConstantExpr ?c")
      case True
      with assms st rc show ?thesis
        by (simp add: onStateForkDecide_def Let_def)
    next
      case False
      with True have "?f = None" by simp
      with assms st rc False show ?thesis
        by (simp add: onStateForkDecide_def Let_def)
    qed
    with st rc True show thesis by (intro skipped) auto
  next
    case False
    then obtain ret_addr cmpId where f: "?f = Some (ret_addr, cmpId)" and nc: "\<not> is_ConstantExpr ?c"
      by (cases ?f) auto
    from assms st rc f nc obtain b where ev: "evaluate eng (concolics st) ?c = ConstantExpr b"
      by (cases "evaluate eng (concolics st) ?c") (simp_all add: onStateForkDecide_def Let_def)
    let ?q = "getInitialValues eng (constraints st @ [alternate b ?c]) (ConstantExpr False) (symbolics st)"
    show thesis
    proof (cases ?q)
      case None
      with assms st rc f nc ev
      have "af' = False \<and> w' = ?w\<lparr>isStepped := insert ret_addr (isStepped w),
               constraintsCount := constraintsCount w + 1,
               unsolvedConstraints := unsolvedConstraints w + 1\<rparr>"
        by (simp add: onStateForkDecide_def Let_def alternate_def mark_stepped)
      with st rc f nc ev None show thesis by (intro failed) auto
    next
      case (Some vals)
      let ?g = "generateTestcase eng st ?c b (symbolics st) vals ret_addr cmpId
                 (?w\<lparr>isStepped := insert ret_addr (isStepped w),
                      constraintsCount := constraintsCount w + 1,
                      solvedConstraints := solvedConstraints w + 1\<rparr>)"
      from assms st rc f nc ev Some obtain w3 where g: "?g = Inr w3" and r: "w' = w3" "af' = False"
        by (cases ?g) (auto simp: onStateForkDecide_def Let_def alternate_def mark_stepped)
      from generateTestcase_Inr [OF g] r
      have "w' = ?w\<lparr>isStepped := insert ret_addr (isStepped w),
               constraintsCount := constraintsCount w + 1,
               solvedConstraints := solvedConstraints w + 1,
               nextStateID := nextStateID w + 1,
               testCases := testCases w @
                 [(IdAddrCmp (nextStateID w - 1) ret_addr cmpId,
                   handed st (nextStateID w) (symbolics st) vals (alternate b ?c))]\<rparr>"
        by simp
      with st rc f nc ev Some r show thesis by (intro solved) auto
    qed
  qed
qed

lemma hook_frame:
  assumes "onStateForkDecide eng state c af w = Inr (w', af')"
  shows "af' = False" "states w' = states w" "retAddr w' = retAddr w" "statOfs w' = statOfs w"
    "terminated w' = terminated w" "m_timeout w' = m_timeout w" "failedOfs w' = failedOfs w"
    "m_currentState w' = (case m_currentState w of None \<Rightarrow> Some state | Some p \<Rightarrow> Some p)"
    "isStepped w \<subseteq> isStepped w'"
  using assms by (rule hook_cases; auto simp: adopt_pointer)+

lemma example_hook:
  "onStateForkDecide example_engine 0 (Symbolic 0) True
     (started [(0x1000, 7)] [(0, example_state 0x1005)] 1) =
   Inr ((started [(0x1000, 7)] [(0, example_state 0x1005)] 2)
          \<lparr>m_currentState := Some 0, constraintsCount := 1, solvedConstraints := 1,
           isStepped := {0x1000},
           testCases := [(IdAddrCmp 0 0x1000 7,
                          handed (example_state 0x1005) 1 [0] [[0x41]] (IsZero (Symbolic 0)))]\<rparr>,
        False)"
  by (simp add: onStateForkDecide_def example_engine_def example_state_def started_def adopt_def
      site_pred_def generateTestcase_def clone_def Let_def store_put_def store_delete_def handed_def)

subsection \<open>The timer\<close>

lemma onTimer_fields [simp]:
  "states (onTimer t1 t2 w) = states w"
  "retAddr (onTimer t1 t2 w) = retAddr w"
  "isStepped (onTimer t1 t2 w) = isStepped w"
  "constraintsCount (onTimer t1 t2 w) = constraintsCount w"
  "solvedConstraints (onTimer t1 t2 w) = solvedConstraints w"
  "unsolvedConstraints (onTimer t1 t2 w) = unsolvedConstraints w"
  "nextStateID (onTimer t1 t2 w) = nextStateID w"
  "testCases (onTimer t1 t2 w) = testCases w"
  "m_timeout (onTimer t1 t2 w) = m_timeout w"
  "m_currentState (onTimer t1 t2 w) = m_currentState w"
  "failedOfs (onTimer t1 t2 w) = failedOfs w"
  by (simp_all add: onTimer_def Let_def)

lemma onTimer_statOfs:
  "buffered (statOfs (onTimer t1 t2 w)) = []"
  "written (statOfs (onTimer t1 t2 w)) =
     written (statOfs w) @ buffered (statOfs w) @
       [Stats t1 (solvedConstraints w) (unsolvedConstraints w) (constraintsCount w)]"
  by (simp_all add: onTimer_def Let_def put_def flush_def)

lemma onTimer_terminated:
  "terminated (onTimer t1 t2 w) =
     (if m_timeout w \<le> t2 then terminated w @ [(m_currentState w, ''timeout'')] else terminated w)"
  by (simp add: onTimer_def Let_def)

text \<open>
  C8. Every call of \<^verbatim>\<open>onTimer\<close> appends one row (user time, solved, unsolved, total) to
  the statistics file and flushes it, so that nothing stays buffered. If the user time
  read for the comparison is below \<^verbatim>\<open>m_timeout\<close>, the call issues no termination
  request; if it is at or above \<^verbatim>\<open>m_timeout\<close>, the call issues exactly one, with the
  message "timeout" and the pointer \<^verbatim>\<open>m_currentState\<close>. \<^verbatim>\<open>initialize\<close> sets the budget to
  3600000.
\<close>

theorem timer_tick:
  "buffered (statOfs (onTimer t1 t2 w)) = []
   \<and> written (statOfs (onTimer t1 t2 w)) =
       written (statOfs w) @ buffered (statOfs w) @
         [Stats t1 (solvedConstraints w) (unsolvedConstraints w) (constraintsCount w)]
   \<and> (t2 < m_timeout w \<longrightarrow> terminated (onTimer t1 t2 w) = terminated w)
   \<and> (m_timeout w \<le> t2 \<longrightarrow>
        terminated (onTimer t1 t2 w) = terminated w @ [(m_currentState w, ''timeout'')])
   \<and> m_timeout (started reg hp n) = 3600000"
  by (simp add: onTimer_statOfs onTimer_terminated started_def)

theorem timer_tick_witness:
  "(10 :: real) < m_timeout (started [(0x1000 :: addr, 7 :: 32 word)] [] 0)
   \<and> terminated (onTimer 9 10 (started [(0x1000 :: addr, 7 :: 32 word)] [] 0)) = []
   \<and> written (statOfs (onTimer 9 10 (started [(0x1000 :: addr, 7 :: 32 word)] [] 0))) = [Stats 9 0 0 0]
   \<and> m_timeout ((started [(0x1000 :: addr, 7 :: 32 word)] [] 0)\<lparr>m_currentState := Some 0\<rparr>) \<le> 3600000
   \<and> terminated (onTimer 9 3600000 ((started [(0x1000 :: addr, 7 :: 32 word)] [] 0)\<lparr>m_currentState := Some 0\<rparr>))
       = [(Some 0, ''timeout'')]"
  using timer_tick [of 9 10 "started [(0x1000 :: addr, 7 :: 32 word)] [] 0"]
    timer_tick [of 9 3600000 "(started [(0x1000 :: addr, 7 :: 32 word)] [] 0)\<lparr>m_currentState := Some 0\<rparr>"]
  by (simp add: started_def)

subsection \<open>The live state\<close>

text \<open>
  C7. When the branch hook returns, the engine's store is what it was on entry: the
  observing state, with its constraints and its concolic assignment, is unchanged (and so
  is every other state), and the clone is gone. The alternate constraint was appended to
  the local copy of the constraints given to the solver and to the clone given to the
  test-case generator. \<^verbatim>\<open>generateTestcase\<close> alone leaves the store as it found it, too.
\<close>

theorem live_state_untouched:
  "(onStateForkDecide eng state c af w = Inr (w', af') \<longrightarrow>
      states w' = states w
      \<and> (\<exists>st. map_of (states w) state = Some st \<and> map_of (states w') state = Some st))
   \<and> (generateTestcase eng st condition conditionIsTrue symbObjects concreteObjects ret_addr cmpId v = Inr v' \<longrightarrow>
        states v' = states v
        \<and> testCases v' = testCases v @
            [(IdAddrCmp (nextStateID v - 1) ret_addr cmpId,
              handed st (nextStateID v) symbObjects concreteObjects (alternate conditionIsTrue condition))]
        \<and> constraints (handed st (nextStateID v) symbObjects concreteObjects (alternate conditionIsTrue condition))
            = constraints st @ [alternate conditionIsTrue condition])"
proof (intro conjI impI)
  assume h: "onStateForkDecide eng state c af w = Inr (w', af')"
  then show s: "states w' = states w" by (rule hook_frame)
  from h obtain st where "map_of (states w) state = Some st"
    by (rule hook_cases)
  with s show "\<exists>st. map_of (states w) state = Some st \<and> map_of (states w') state = Some st"
    by simp
next
  assume g: "generateTestcase eng st condition conditionIsTrue symbObjects concreteObjects ret_addr cmpId v = Inr v'"
  from generateTestcase_Inr [OF g] show "states v' = states v" by simp
  from generateTestcase_Inr [OF g]
  show "testCases v' = testCases v @
            [(IdAddrCmp (nextStateID v - 1) ret_addr cmpId,
              handed st (nextStateID v) symbObjects concreteObjects (alternate conditionIsTrue condition))]"
    by simp
  show "constraints (handed st (nextStateID v) symbObjects concreteObjects (alternate conditionIsTrue condition))
            = constraints st @ [alternate conditionIsTrue condition]"
    by (simp add: handed_def)
qed

theorem live_state_untouched_witness:
  "\<exists>w'. onStateForkDecide example_engine 0 (Symbolic 0) True
           (started [(0x1000, 7)] [(0, example_state 0x1005)] 1) = Inr (w', False)
        \<and> states w' = [(0, example_state 0x1005)]
        \<and> map_of (states w') 0 = Some (example_state 0x1005)
        \<and> length (testCases w') = 1"
proof -
  let ?w = "started [(0x1000 :: addr, 7 :: 32 word)] [(0, example_state 0x1005)] 1"
  obtain w' where h: "onStateForkDecide example_engine 0 (Symbolic 0) True ?w = Inr (w', False)"
    and t: "length (testCases w') = 1"
    using example_hook by simp
  from live_state_untouched [THEN conjunct1, rule_format, OF h]
  have "states w' = states ?w" by simp
  with h t show ?thesis by (simp add: started_def)
qed

subsection \<open>The counters\<close>

lemma counters_ok_started: "counters_ok (started reg hp n)"
  by (simp add: counters_ok_def started_def)

lemma counters_ok_onTimer: "counters_ok w \<Longrightarrow> counters_ok (onTimer t1 t2 w)"
  by (simp add: counters_ok_def onTimer_statOfs)

lemma counters_ok_opcode:
  "counters_ok w \<Longrightarrow> counters_ok (handleOpcodeInvocation guestDataSize mem_read t1 t2 w)"
  by (simp add: handleOpcodeInvocation_def counters_ok_onTimer split: option.split)

lemma counters_ok_hook:
  assumes "onStateForkDecide eng state c af w = Inr (w', af')" and "counters_ok w"
  shows "counters_ok w'"
  using assms(1)
proof (rule hook_cases)
  fix st
  assume "w' = adopt state w"
  with assms(2) show ?thesis by (simp add: counters_ok_def)
next
  fix ret_addr
  assume "w' = (adopt state w)\<lparr>isStepped := insert ret_addr (isStepped w),
               constraintsCount := constraintsCount w + 1,
               unsolvedConstraints := unsolvedConstraints w + 1\<rparr>"
  moreover from assms(2) have "solvedConstraints w + (unsolvedConstraints w + 1) = constraintsCount w + 1"
    by (simp add: counters_ok_def add.assoc [symmetric])
  ultimately show ?thesis using assms(2) by (simp add: counters_ok_def)
next
  fix ret_addr x
  assume "w' = (adopt state w)\<lparr>isStepped := insert ret_addr (isStepped w),
               constraintsCount := constraintsCount w + 1,
               solvedConstraints := solvedConstraints w + 1,
               nextStateID := nextStateID w + 1,
               testCases := testCases w @ [x]\<rparr>"
  moreover from assms(2) have "solvedConstraints w + 1 + unsolvedConstraints w = constraintsCount w + 1"
    by (simp add: counters_ok_def add.commute add.left_commute)
  ultimately show ?thesis using assms(2) by (simp add: counters_ok_def)
qed

lemma counters_ok_step:
  "step eng ev w = Inr w' \<Longrightarrow> counters_ok w \<Longrightarrow> counters_ok w'"
proof (cases ev)
  case (Branch state c af)
  assume "step eng ev w = Inr w'" "counters_ok w"
  with Branch show ?thesis
    by (cases "onStateForkDecide eng state c af w") (auto dest: counters_ok_hook)
next
  case (Timer t1 t2)
  assume "step eng ev w = Inr w'" "counters_ok w"
  with Timer show ?thesis by (auto simp: counters_ok_onTimer)
next
  case (Opcode guestDataSize mem_read t1 t2)
  assume "step eng ev w = Inr w'" "counters_ok w"
  with Opcode show ?thesis by (auto simp: counters_ok_opcode)
next
  case (Engine hp n)
  assume "step eng ev w = Inr w'" "counters_ok w"
  with Engine show ?thesis by (auto simp: counters_ok_def)
qed

lemma counters_ok_run:
  "run eng evs w = Inr w' \<Longrightarrow> counters_ok w \<Longrightarrow> counters_ok w'"
proof (induction evs arbitrary: w)
  case Nil
  then show ?case by simp
next
  case (Cons ev evs)
  then show ?case
    by (cases "step eng ev w") (auto dest: counters_ok_step)
qed

lemma counters_ok_shutdown:
  "counters_ok w \<Longrightarrow> counters_ok (onEngineShutdown opened t1 t2 t3 w)"
  by (simp add: onEngineShutdown_def Let_def counters_ok_def onTimer_statOfs put_def flush_def
      split: prod.split)

lemma hook_counters:
  assumes "onStateForkDecide eng state c af w = Inr (w', af')"
  shows "(constraintsCount w' = constraintsCount w \<or> constraintsCount w' = constraintsCount w + 1)
       \<and> (solvedConstraints w' = solvedConstraints w \<or> solvedConstraints w' = solvedConstraints w + 1)
       \<and> (unsolvedConstraints w' = unsolvedConstraints w \<or> unsolvedConstraints w' = unsolvedConstraints w + 1)"
  using assms by (rule hook_cases) simp_all

lemma step_counters:
  assumes "step eng ev w = Inr w'"
  shows "(constraintsCount w' = constraintsCount w \<or> constraintsCount w' = constraintsCount w + 1)
       \<and> (solvedConstraints w' = solvedConstraints w \<or> solvedConstraints w' = solvedConstraints w + 1)
       \<and> (unsolvedConstraints w' = unsolvedConstraints w \<or> unsolvedConstraints w' = unsolvedConstraints w + 1)"
proof (cases ev)
  case (Branch state c af)
  with assms obtain af' where "onStateForkDecide eng state c af w = Inr (w', af')"
    by (cases "onStateForkDecide eng state c af w") auto
  then show ?thesis by (rule hook_counters)
next
  case (Timer t1 t2)
  with assms show ?thesis by auto
next
  case (Opcode guestDataSize mem_read t1 t2)
  with assms show ?thesis by (auto simp: handleOpcodeInvocation_def split: option.splits if_splits)
next
  case (Engine hp n)
  with assms show ?thesis by auto
qed

text \<open>
  C2. From the start of the plugin, after any events (calls of the branch hook, timer
  ticks, guest commands, steps of the engine) none of which has ended the process,
  solvedConstraints + unsolvedConstraints = constraintsCount in the counters' own
  arithmetic, which is that of \<^verbatim>\<open>unsigned int\<close>; every row that \<^verbatim>\<open>onTimer\<close> has written so
  far, and every row in the file after \<^verbatim>\<open>onEngineShutdown\<close>, carries three counters that
  add up in the same way; and an event leaves each counter as it is or adds one to it:
  no counter is decremented.
\<close>

theorem counters_invariant:
  assumes "run eng evs (started reg hp n) = Inr w"
  shows "solvedConstraints w + unsolvedConstraints w = constraintsCount w
       \<and> list_all row_ok (written (statOfs w))
       \<and> list_all row_ok (written (statOfs (onEngineShutdown opened t1 t2 t3 w)))
       \<and> (step eng ev w = Inr w' \<longrightarrow>
            (constraintsCount w' = constraintsCount w \<or> constraintsCount w' = constraintsCount w + 1)
          \<and> (solvedConstraints w' = solvedConstraints w \<or> solvedConstraints w' = solvedConstraints w + 1)
          \<and> (unsolvedConstraints w' = unsolvedConstraints w \<or> unsolvedConstraints w' = unsolvedConstraints w + 1))"
proof -
  from assms have ok: "counters_ok w"
    by (rule counters_ok_run) (rule counters_ok_started)
  then have "counters_ok (onEngineShutdown opened t1 t2 t3 w)"
    by (rule counters_ok_shutdown)
  with ok step_counters [of eng ev w w'] show ?thesis
    by (simp add: counters_ok_def)
qed

lemma example_run:
  "run example_engine [Branch 0 (Symbolic 0) True, Timer 9 10]
     (started [(0x1000, 7)] [(0, example_state 0x1005)] 1) =
   Inr ((started [(0x1000, 7)] [(0, example_state 0x1005)] 2)
          \<lparr>m_currentState := Some 0, constraintsCount := 1, solvedConstraints := 1,
           isStepped := {0x1000},
           statOfs := \<lparr>buffered = [], written = [Stats 9 1 0 1]\<rparr>,
           testCases := [(IdAddrCmp 0 0x1000 7,
                          handed (example_state 0x1005) 1 [0] [[0x41]] (IsZero (Symbolic 0)))]\<rparr>)"
  by (simp add: example_hook) (simp add: onTimer_def Let_def put_def flush_def started_def)

theorem counters_invariant_witness:
  "\<exists>w. run example_engine [Branch 0 (Symbolic 0) True, Timer 9 10]
          (started [(0x1000, 7)] [(0, example_state 0x1005)] 1) = Inr w
       \<and> solvedConstraints w + unsolvedConstraints w = constraintsCount w
       \<and> constraintsCount w = 1
       \<and> written (statOfs w) = [Stats 9 1 0 1]"
proof -
  obtain w where r: "run example_engine [Branch 0 (Symbolic 0) True, Timer 9 10]
          (started [(0x1000, 7)] [(0, example_state 0x1005)] 1) = Inr w"
    and c: "constraintsCount w = 1" "written (statOfs w) = [Stats 9 1 0 1]"
    using example_run by simp
  from counters_invariant [OF r, THEN conjunct1] r c show ?thesis by blast
qed

subsection \<open>The requests to the test-case generator\<close>

lemma generateTestcase_left_agrees:
  "generateTestcase eng st condition conditionIsTrue symbObjects concreteObjects ret_addr cmpId w =
     (case generateTestcase_left eng st condition conditionIsTrue symbObjects concreteObjects ret_addr cmpId w of
        (None, w') \<Rightarrow> Inr w' | (Some e, w') \<Rightarrow> Inl e)"
  by (simp add: generateTestcase_def generateTestcase_left_def Let_def split: prod.split)

lemma hook_left_agrees:
  "onStateForkDecide eng state c af w =
     (case onStateForkDecide_left eng state c af w of
        (None, w', af') \<Rightarrow> Inr (w', af') | (Some e, w', af') \<Rightarrow> Inl e)"
  by (simp add: onStateForkDecide_def onStateForkDecide_left_def generateTestcase_left_agrees Let_def
      split: option.split prod.split expr.split sum.split)

lemma step_left_agrees:
  "step eng ev w = (case step_left eng ev w of (None, w') \<Rightarrow> Inr w' | (Some e, w') \<Rightarrow> Inl e)"
  by (cases ev) (simp_all add: hook_left_agrees split: prod.split option.split)

lemma run_left_agrees:
  "run eng evs w = (case run_left eng evs w of (None, w') \<Rightarrow> Inr w' | (Some e, w') \<Rightarrow> Inl e)"
  by (induction evs arbitrary: w) (simp_all add: step_left_agrees split: prod.split option.split)

lemma generateTestcase_left_effect:
  assumes "generateTestcase_left eng st condition conditionIsTrue symbObjects concreteObjects ret_addr cmpId w = (e, w')"
  shows "solvedConstraints w' = solvedConstraints w \<and>
         ((e = None \<and> length (testCases w') = Suc (length (testCases w))) \<or>
          (ended_in_handoff e \<and> testCases w' = testCases w))"
  using assms
  by (auto simp: generateTestcase_left_def clone_def Let_def ended_in_handoff_def split: if_splits)

lemma hook_left_handoffs:
  assumes "onStateForkDecide_left eng state c af w = (e, w', af')"
    and "solvedConstraints w = of_nat (length (testCases w))"
  shows "solvedConstraints w' = of_nat (length (testCases w')) + (if ended_in_handoff e then 1 else 0)"
proof (cases "map_of (states w) state")
  case None
  with assms show ?thesis
    by (auto simp: onStateForkDecide_left_def Let_def ended_in_handoff_def)
next
  case (Some st)
  let ?c = "simplifyExpr eng st c"
  let ?f = "find (site_pred (pc_reg st)) (retAddr w)"
  show ?thesis
  proof (cases "runningConcrete st \<or> is_ConstantExpr ?c")
    case True
    with assms Some show ?thesis
      by (auto simp: onStateForkDecide_left_def Let_def ended_in_handoff_def split: if_splits)
  next
    case False
    show ?thesis
    proof (cases ?f)
      case None
      with assms Some False show ?thesis
        by (auto simp: onStateForkDecide_left_def Let_def ended_in_handoff_def)
    next
      case f: (Some site)
      obtain ret_addr cmpId where site: "site = (ret_addr, cmpId)" by (cases site)
      show ?thesis
      proof (cases "evaluate eng (concolics st) ?c")
        case (ConstantExpr b)
        let ?q = "getInitialValues eng (constraints st @ [if b then IsZero ?c else ?c])
                    (ConstantExpr False) (symbolics st)"
        show ?thesis
        proof (cases ?q)
          case None
          with assms Some False f site ConstantExpr show ?thesis
            by (auto simp: onStateForkDecide_left_def Let_def ended_in_handoff_def mark_stepped)
        next
          case q: (Some vals)
          let ?v = "(if ret_addr \<notin> isStepped w
                     then (adopt state w)\<lparr>isStepped := insert ret_addr (isStepped (adopt state w))\<rparr>
                     else adopt state w)"
          let ?g = "generateTestcase_left eng st ?c b (symbolics st) vals ret_addr cmpId
                      (?v\<lparr>constraintsCount := constraintsCount ?v + 1,
                          solvedConstraints := solvedConstraints ?v + 1\<rparr>)"
          from assms(1) Some False f site ConstantExpr q have g: "?g = (e, w')"
            by (cases ?g) (simp add: onStateForkDecide_left_def Let_def)
          from generateTestcase_left_effect [OF g] assms(2) show ?thesis
            by (auto simp: ended_in_handoff_def mark_stepped)
        qed
      next
        case (Symbolic k)
        with assms Some False f site show ?thesis
          by (auto simp: onStateForkDecide_left_def Let_def ended_in_handoff_def mark_stepped)
      next
        case (IsZero x)
        with assms Some False f site show ?thesis
          by (auto simp: onStateForkDecide_left_def Let_def ended_in_handoff_def mark_stepped)
      qed
    qed
  qed
qed

lemma step_left_handoffs:
  assumes "step_left eng ev w = (e, w')"
    and "solvedConstraints w = of_nat (length (testCases w))"
  shows "solvedConstraints w' = of_nat (length (testCases w')) + (if ended_in_handoff e then 1 else 0)"
proof (cases ev)
  case (Branch state c af)
  with assms(1) obtain af' where "onStateForkDecide_left eng state c af w = (e, w', af')"
    by (cases "onStateForkDecide_left eng state c af w") auto
  then show ?thesis using assms(2) by (rule hook_left_handoffs)
next
  case (Timer t1 t2)
  with assms show ?thesis by (auto simp: ended_in_handoff_def)
next
  case (Opcode guestDataSize mem_read t1 t2)
  with assms show ?thesis
    by (auto simp: handleOpcodeInvocation_def ended_in_handoff_def split: option.splits if_splits)
next
  case (Engine hp n)
  with assms show ?thesis by (auto simp: ended_in_handoff_def)
qed

lemma run_left_handoffs:
  "run_left eng evs w = (e, w') \<Longrightarrow> solvedConstraints w = of_nat (length (testCases w))
     \<Longrightarrow> solvedConstraints w' = of_nat (length (testCases w')) + (if ended_in_handoff e then 1 else 0)"
proof (induction evs arbitrary: w)
  case Nil
  then show ?case by (auto simp: ended_in_handoff_def)
next
  case (Cons ev evs)
  obtain e1 v where s: "step_left eng ev w = (e1, v)" by (cases "step_left eng ev w")
  show ?case
  proof (cases e1)
    case None
    from step_left_handoffs [OF s Cons.prems(2)] None
    have "solvedConstraints v = of_nat (length (testCases v))"
      by (simp add: ended_in_handoff_def)
    moreover from Cons.prems(1) s None have "run_left eng evs v = (e, w')" by simp
    ultimately show ?thesis by (rule Cons.IH [rotated])
  next
    case (Some x)
    with Cons.prems(1) s have "e = e1" "w' = v" by simp_all
    with step_left_handoffs [OF s Cons.prems(2)] show ?thesis by simp
  qed
qed

lemma hook_exact:
  assumes "onStateForkDecide eng state c af v = Inr (v', af')"
  shows "\<exists>st. map_of (states v) state = Some st \<and>
     (if is_ConstantExpr (simplifyExpr eng st c) \<or> find (site_pred (pc_reg st)) (retAddr v) = None
      then testCases v' = testCases v \<and> constraintsCount v' = constraintsCount v
         \<and> solvedConstraints v' = solvedConstraints v \<and> unsolvedConstraints v' = unsolvedConstraints v
      else \<exists>b ret_addr cmpId.
             find (site_pred (pc_reg st)) (retAddr v) = Some (ret_addr, cmpId)
           \<and> evaluate eng (concolics st) (simplifyExpr eng st c) = ConstantExpr b
           \<and> (case getInitialValues eng (constraints st @ [alternate b (simplifyExpr eng st c)])
                     (ConstantExpr False) (symbolics st) of
                None \<Rightarrow>
                  testCases v' = testCases v \<and> constraintsCount v' = constraintsCount v + 1
                \<and> solvedConstraints v' = solvedConstraints v
                \<and> unsolvedConstraints v' = unsolvedConstraints v + 1
              | Some vals \<Rightarrow>
                  testCases v' = testCases v @
                    [(IdAddrCmp (nextStateID v - 1) ret_addr cmpId,
                      handed st (nextStateID v) (symbolics st) vals (alternate b (simplifyExpr eng st c)))]
                \<and> constraintsCount v' = constraintsCount v + 1
                \<and> solvedConstraints v' = solvedConstraints v + 1
                \<and> unsolvedConstraints v' = unsolvedConstraints v))"
  using assms
proof (rule hook_cases)
  fix st
  assume "map_of (states v) state = Some st"
    "is_ConstantExpr (simplifyExpr eng st c) \<or> find (site_pred (pc_reg st)) (retAddr v) = None"
    "v' = adopt state v"
  then show ?thesis by auto
next
  fix st ret_addr cmpId b
  assume "map_of (states v) state = Some st"
    "\<not> is_ConstantExpr (simplifyExpr eng st c)"
    "find (site_pred (pc_reg st)) (retAddr v) = Some (ret_addr, cmpId)"
    "evaluate eng (concolics st) (simplifyExpr eng st c) = ConstantExpr b"
    "getInitialValues eng (constraints st @ [alternate b (simplifyExpr eng st c)])
         (ConstantExpr False) (symbolics st) = None"
    "v' = (adopt state v)\<lparr>isStepped := insert ret_addr (isStepped v),
               constraintsCount := constraintsCount v + 1,
               unsolvedConstraints := unsolvedConstraints v + 1\<rparr>"
  then show ?thesis by auto
next
  fix st ret_addr cmpId b vals
  assume "map_of (states v) state = Some st"
    "\<not> is_ConstantExpr (simplifyExpr eng st c)"
    "find (site_pred (pc_reg st)) (retAddr v) = Some (ret_addr, cmpId)"
    "evaluate eng (concolics st) (simplifyExpr eng st c) = ConstantExpr b"
    "getInitialValues eng (constraints st @ [alternate b (simplifyExpr eng st c)])
         (ConstantExpr False) (symbolics st) = Some vals"
    "v' = (adopt state v)\<lparr>isStepped := insert ret_addr (isStepped v),
               constraintsCount := constraintsCount v + 1,
               solvedConstraints := solvedConstraints v + 1,
               nextStateID := nextStateID v + 1,
               testCases := testCases v @
                 [(IdAddrCmp (nextStateID v - 1) ret_addr cmpId,
                   handed st (nextStateID v) (symbolics st) vals
                     (alternate b (simplifyExpr eng st c)))]\<rparr>"
  then show ?thesis by auto
qed

text \<open>
  C3, as amended. Over any run from the start of the plugin, also one that ends the
  process, \<^verbatim>\<open>solvedConstraints\<close> (an \<^verbatim>\<open>unsigned int\<close>) is the number of calls made to
  \<^verbatim>\<open>generateTestCases\<close>, plus one if the run was ended in \<^verbatim>\<open>generateTestcase\<close>, where the
  solve is counted before the clone is made and the process is aborted before the
  request. So after a run that has not ended the process the counter is the number of
  requests, as such a value, and the number itself while that is below \<open>2\<^sup>3\<^sup>2\<close>. A call of
  the branch hook that returns has made no solver query and no request and left the
  counters alone if the simplified condition is a constant or no site matches;
  otherwise it has put one query, on the constraints of the state and the alternate
  constraint, and has counted it as unsolved and made no request if the query failed,
  and counted it as solved and made exactly one request, for the clone with the values
  of the solver, if the query succeeded.
\<close>

theorem handoff_per_solve:
  "(run_left eng evs (started reg hp n) = (e, w) \<longrightarrow>
      solvedConstraints w = of_nat (length (testCases w)) + (if ended_in_handoff e then 1 else 0))
   \<and> (run eng evs (started reg hp n) = Inr w \<longleftrightarrow> run_left eng evs (started reg hp n) = (None, w))
   \<and> (run eng evs (started reg hp n) = Inr w \<longrightarrow>
        solvedConstraints w = of_nat (length (testCases w))
      \<and> (length (testCases w) < 2 ^ 32 \<longrightarrow> unat (solvedConstraints w) = length (testCases w)))
   \<and> (onStateForkDecide eng state c af v = Inr (v', af') \<longrightarrow>
        (\<exists>st. map_of (states v) state = Some st \<and>
          (if is_ConstantExpr (simplifyExpr eng st c) \<or> find (site_pred (pc_reg st)) (retAddr v) = None
           then testCases v' = testCases v \<and> constraintsCount v' = constraintsCount v
              \<and> solvedConstraints v' = solvedConstraints v \<and> unsolvedConstraints v' = unsolvedConstraints v
           else \<exists>b ret_addr cmpId.
                  find (site_pred (pc_reg st)) (retAddr v) = Some (ret_addr, cmpId)
                \<and> evaluate eng (concolics st) (simplifyExpr eng st c) = ConstantExpr b
                \<and> (case getInitialValues eng (constraints st @ [alternate b (simplifyExpr eng st c)])
                          (ConstantExpr False) (symbolics st) of
                     None \<Rightarrow>
                       testCases v' = testCases v \<and> constraintsCount v' = constraintsCount v + 1
                     \<and> solvedConstraints v' = solvedConstraints v
                     \<and> unsolvedConstraints v' = unsolvedConstraints v + 1
                   | Some vals \<Rightarrow>
                       testCases v' = testCases v @
                         [(IdAddrCmp (nextStateID v - 1) ret_addr cmpId,
                           handed st (nextStateID v) (symbolics st) vals
                             (alternate b (simplifyExpr eng st c)))]
                     \<and> constraintsCount v' = constraintsCount v + 1
                     \<and> solvedConstraints v' = solvedConstraints v + 1
                     \<and> unsolvedConstraints v' = unsolvedConstraints v))))"
proof (intro conjI impI)
  have s0: "solvedConstraints (started reg hp n) = of_nat (length (testCases (started reg hp n)))"
    by (simp add: started_def)
  show "solvedConstraints w = of_nat (length (testCases w)) + (if ended_in_handoff e then 1 else 0)"
    if "run_left eng evs (started reg hp n) = (e, w)"
    using that s0 by (rule run_left_handoffs)
  show agree: "run eng evs (started reg hp n) = Inr w \<longleftrightarrow> run_left eng evs (started reg hp n) = (None, w)"
    by (cases "run_left eng evs (started reg hp n)")
       (auto simp: run_left_agrees split: option.splits)
  show eq: "solvedConstraints w = of_nat (length (testCases w))"
    if r: "run eng evs (started reg hp n) = Inr w"
  proof -
    from r agree have "run_left eng evs (started reg hp n) = (None, w)" by simp
    from run_left_handoffs [OF this s0] show ?thesis by (simp add: ended_in_handoff_def)
  qed
  show "unat (solvedConstraints w) = length (testCases w)"
    if r: "run eng evs (started reg hp n) = Inr w" and l: "length (testCases w) < 2 ^ 32"
  proof -
    from l have "unat (of_nat (length (testCases w)) :: 32 word) = length (testCases w)"
      by (simp add: unat_of_nat)
    with eq [OF r] show ?thesis by simp
  qed
next
  assume "onStateForkDecide eng state c af v = Inr (v', af')"
  then show "\<exists>st. map_of (states v) state = Some st \<and>
          (if is_ConstantExpr (simplifyExpr eng st c) \<or> find (site_pred (pc_reg st)) (retAddr v) = None
           then testCases v' = testCases v \<and> constraintsCount v' = constraintsCount v
              \<and> solvedConstraints v' = solvedConstraints v \<and> unsolvedConstraints v' = unsolvedConstraints v
           else \<exists>b ret_addr cmpId.
                  find (site_pred (pc_reg st)) (retAddr v) = Some (ret_addr, cmpId)
                \<and> evaluate eng (concolics st) (simplifyExpr eng st c) = ConstantExpr b
                \<and> (case getInitialValues eng (constraints st @ [alternate b (simplifyExpr eng st c)])
                          (ConstantExpr False) (symbolics st) of
                     None \<Rightarrow>
                       testCases v' = testCases v \<and> constraintsCount v' = constraintsCount v + 1
                     \<and> solvedConstraints v' = solvedConstraints v
                     \<and> unsolvedConstraints v' = unsolvedConstraints v + 1
                   | Some vals \<Rightarrow>
                       testCases v' = testCases v @
                         [(IdAddrCmp (nextStateID v - 1) ret_addr cmpId,
                           handed st (nextStateID v) (symbolics st) vals
                             (alternate b (simplifyExpr eng st c)))]
                     \<and> constraintsCount v' = constraintsCount v + 1
                     \<and> solvedConstraints v' = solvedConstraints v + 1
                     \<and> unsolvedConstraints v' = unsolvedConstraints v))"
    by (rule hook_exact)
qed

theorem handoff_per_solve_witness:
  "\<exists>w. run example_engine [Branch 0 (Symbolic 0) True, Timer 9 10]
          (started [(0x1000, 7)] [(0, example_state 0x1005)] 1) = Inr w
       \<and> run_left example_engine [Branch 0 (Symbolic 0) True, Timer 9 10]
          (started [(0x1000, 7)] [(0, example_state 0x1005)] 1) = (None, w)
       \<and> length (testCases w) < 2 ^ 32
       \<and> unat (solvedConstraints w) = length (testCases w)
       \<and> length (testCases w) = 1"
proof -
  obtain w where r: "run example_engine [Branch 0 (Symbolic 0) True, Timer 9 10]
          (started [(0x1000, 7)] [(0, example_state 0x1005)] 1) = Inr w"
    and c: "length (testCases w) = 1"
    using example_run by simp
  note h = handoff_per_solve [THEN conjunct2, of example_engine
      "[Branch 0 (Symbolic 0) True, Timer 9 10]" "[(0x1000, 7)]" "[(0, example_state 0x1005)]" 1 w]
  from h [THEN conjunct1, THEN iffD1, OF r]
  have l: "run_left example_engine [Branch 0 (Symbolic 0) True, Timer 9 10]
          (started [(0x1000, 7)] [(0, example_state 0x1005)] 1) = (None, w)" .
  from h [THEN conjunct2, THEN conjunct1, rule_format, OF r] c
  have "unat (solvedConstraints w) = length (testCases w)"
    by simp
  with r l c show ?thesis by simp
qed

text \<open>
  C3 as stated fails on a run that is aborted in \<^verbatim>\<open>generateTestcase\<close>: with an engine
  that refuses the alternate constraint on the clone, the first call of the hook ends
  the process with \<^verbatim>\<open>solvedConstraints\<close> at 1 and no request made.
\<close>

theorem handoff_abort_counterexample:
  "onStateForkDecide rejecting_engine 0 (Symbolic 0) True
      (started [(0x1000, 7)] [(0, example_state 0x1005)] 1) = Inl Aborted
   \<and> fst (run_left rejecting_engine [Branch 0 (Symbolic 0) True]
            (started [(0x1000, 7)] [(0, example_state 0x1005)] 1)) = Some Aborted
   \<and> solvedConstraints (snd (run_left rejecting_engine [Branch 0 (Symbolic 0) True]
            (started [(0x1000, 7)] [(0, example_state 0x1005)] 1))) = 1
   \<and> testCases (snd (run_left rejecting_engine [Branch 0 (Symbolic 0) True]
            (started [(0x1000, 7)] [(0, example_state 0x1005)] 1))) = []"
  by (simp add: onStateForkDecide_def onStateForkDecide_left_def rejecting_engine_def
      example_state_def started_def adopt_def site_pred_def generateTestcase_def
      generateTestcase_left_def clone_def Let_def store_put_def)

subsection \<open>The tracked state\<close>

lemma step_pointer:
  assumes "step eng ev w = Inr w'"
  shows "m_currentState w' =
           (case m_currentState w of None \<Rightarrow> first_observed [ev] | Some p \<Rightarrow> Some p)"
proof (cases ev)
  case (Branch state c af)
  with assms obtain af' where "onStateForkDecide eng state c af w = Inr (w', af')"
    by (cases "onStateForkDecide eng state c af w") auto
  from hook_frame(8) [OF this] Branch show ?thesis by (simp split: option.split)
next
  case (Timer t1 t2)
  with assms show ?thesis by (auto split: option.split)
next
  case (Opcode guestDataSize mem_read t1 t2)
  with assms show ?thesis
    by (auto simp: handleOpcodeInvocation_def split: option.splits if_splits)
next
  case (Engine hp n)
  with assms show ?thesis by (auto split: option.split)
qed

lemma first_observed_Cons:
  "first_observed (ev # evs) = (case first_observed [ev] of None \<Rightarrow> first_observed evs | Some p \<Rightarrow> Some p)"
  by (cases ev) simp_all

lemma run_pointer:
  "run eng evs w = Inr w' \<Longrightarrow>
     m_currentState w' = (case m_currentState w of None \<Rightarrow> first_observed evs | Some p \<Rightarrow> Some p)"
proof (induction evs arbitrary: w)
  case Nil
  then show ?case by (simp split: option.split)
next
  case (Cons ev evs)
  from Cons.prems obtain v where s: "step eng ev w = Inr v" and r: "run eng evs v = Inr w'"
    by (cases "step eng ev w") auto
  from Cons.IH [OF r] step_pointer [OF s] show ?case
    by (subst first_observed_Cons) (simp split: option.splits)
qed

lemma first_observed_None_iff:
  "first_observed evs = None \<longleftrightarrow> \<not> (\<exists>state c af. Branch state c af \<in> set evs)"
  by (induction evs rule: first_observed.induct) auto

lemma step_keeps_states:
  assumes "step eng ev w = Inr w'" and "\<not> (\<exists>hp' n'. ev = Engine hp' n')"
  shows "states w' = states w"
proof (cases ev)
  case (Branch state c af)
  with assms(1) obtain af' where "onStateForkDecide eng state c af w = Inr (w', af')"
    by (cases "onStateForkDecide eng state c af w") auto
  then show ?thesis by (rule hook_frame)
next
  case (Timer t1 t2)
  with assms(1) show ?thesis by auto
next
  case (Opcode guestDataSize mem_read t1 t2)
  with assms(1) show ?thesis
    by (auto simp: handleOpcodeInvocation_def split: option.splits if_splits)
next
  case (Engine hp' n')
  with assms(2) show ?thesis by simp
qed

lemma run_first_live:
  "run eng evs w = Inr w' \<Longrightarrow> \<not> (\<exists>hp' n'. Engine hp' n' \<in> set evs)
     \<Longrightarrow> states w' = states w \<and> (\<forall>p. first_observed evs = Some p \<longrightarrow> map_of (states w) p \<noteq> None)"
proof (induction evs arbitrary: w)
  case Nil
  then show ?case by simp
next
  case (Cons ev evs)
  from Cons.prems(1) obtain v where s: "step eng ev w = Inr v" and r: "run eng evs v = Inr w'"
    by (cases "step eng ev w") auto
  from Cons.prems(2) have ne: "\<not> (\<exists>hp' n'. ev = Engine hp' n')"
    and ne': "\<not> (\<exists>hp' n'. Engine hp' n' \<in> set evs)"
    by auto
  from step_keeps_states [OF s ne] have sv: "states v = states w" .
  from Cons.IH [OF r ne'] sv
  have ih: "states w' = states w" "\<forall>p. first_observed evs = Some p \<longrightarrow> map_of (states w) p \<noteq> None"
    by simp_all
  have "\<forall>p. first_observed (ev # evs) = Some p \<longrightarrow> map_of (states w) p \<noteq> None"
  proof (cases ev)
    case (Branch state c af)
    with s obtain af' where "onStateForkDecide eng state c af w = Inr (v, af')"
      by (cases "onStateForkDecide eng state c af w") auto
    then obtain st where "map_of (states w) state = Some st"
      by (rule hook_cases)
    with Branch show ?thesis by simp
  next
    case (Timer t1 t2)
    with ih(2) show ?thesis by simp
  next
    case (Opcode guestDataSize mem_read t1 t2)
    with ih(2) show ?thesis by simp
  next
    case (Engine hp' n')
    with ne show ?thesis by simp
  qed
  with ih(1) show ?case by simp
qed

text \<open>
  C10, as amended. The timeout branch of \<^verbatim>\<open>onTimer\<close> passes \<^verbatim>\<open>*m_currentState\<close> to
  \<^verbatim>\<open>terminateState\<close> whatever the pointer is. From the start of the plugin, after any events
  none of which has ended the process, the pointer is the state of the first call of the
  branch hook among them (a later call does not change it), so that it is not null once
  the hook has been called; and it is null if the hook has not been called, in which case
  a tick that reaches the timeout makes its request with the null pointer. The pointer
  can be dereferenced exactly when the hook has been called and the engine's store still
  holds the first state, which is the case as long as the engine has not changed its
  store: nothing in the plugin clears or renews the pointer.
\<close>

theorem tracked_state_reference:
  assumes "run eng evs (started reg hp n) = Inr w" and "m_timeout w \<le> t2"
  shows "m_currentState w = first_observed evs
       \<and> terminated (onTimer t1 t2 w) = terminated w @ [(first_observed evs, ''timeout'')]
       \<and> (first_observed evs = None \<longleftrightarrow> \<not> (\<exists>state c af. Branch state c af \<in> set evs))
       \<and> first_observed (Branch state c af # evs') = Some state
       \<and> (tracked_state_live w \<longleftrightarrow> (\<exists>p. first_observed evs = Some p \<and> map_of (states w) p \<noteq> None))
       \<and> (first_observed evs \<noteq> None \<and> \<not> (\<exists>hp' n'. Engine hp' n' \<in> set evs) \<longrightarrow> tracked_state_live w)"
proof -
  from run_pointer [OF assms(1)] have p: "m_currentState w = first_observed evs"
    by (simp add: started_def)
  with assms(2) have t: "terminated (onTimer t1 t2 w) = terminated w @ [(first_observed evs, ''timeout'')]"
    by (simp add: onTimer_terminated)
  from p have l: "tracked_state_live w \<longleftrightarrow> (\<exists>p. first_observed evs = Some p \<and> map_of (states w) p \<noteq> None)"
    by (simp add: tracked_state_live_def split: option.split)
  have q: "first_observed evs \<noteq> None \<and> \<not> (\<exists>hp' n'. Engine hp' n' \<in> set evs) \<longrightarrow> tracked_state_live w"
  proof
    assume a: "first_observed evs \<noteq> None \<and> \<not> (\<exists>hp' n'. Engine hp' n' \<in> set evs)"
    then obtain p where fo: "first_observed evs = Some p" by auto
    from run_first_live [OF assms(1)] a fo have "map_of (states w) p \<noteq> None" by simp
    with l fo show "tracked_state_live w" by simp
  qed
  from p t l q first_observed_None_iff [of evs] show ?thesis by simp
qed

theorem tracked_state_reference_witness:
  "(\<exists>w. run example_engine [Branch 0 (Symbolic 0) True, Timer 9 10]
           (started [(0x1000, 7)] [(0, example_state 0x1005)] 1) = Inr w
        \<and> m_timeout w \<le> 3600000
        \<and> m_currentState w = Some 0
        \<and> tracked_state_live w
        \<and> terminated (onTimer 9 3600000 w) = [(Some 0, ''timeout'')])
   \<and> run example_engine [] (started [(0x1000, 7)] [(0, example_state 0x1005)] 1)
        = Inr (started [(0x1000, 7)] [(0, example_state 0x1005)] 1)
   \<and> m_timeout (started [(0x1000 :: addr, 7 :: 32 word)] [(0, example_state 0x1005)] 1) \<le> 3600000
   \<and> terminated (onTimer 9 3600000 (started [(0x1000 :: addr, 7 :: 32 word)] [(0, example_state 0x1005)] 1))
        = [(None, ''timeout'')]"
proof -
  let ?s = "started [(0x1000 :: addr, 7 :: 32 word)] [(0, example_state 0x1005)] 1"
  obtain w where r: "run example_engine [Branch 0 (Symbolic 0) True, Timer 9 10] ?s = Inr w"
    and t: "m_timeout w \<le> 3600000" "terminated w = []"
    using example_run by (simp add: started_def)
  from tracked_state_reference [OF r t(1), of 9] t(2)
  have a: "m_currentState w = Some 0 \<and> tracked_state_live w
         \<and> terminated (onTimer 9 3600000 w) = [(Some 0, ''timeout'')]"
    by auto
  have r0: "run example_engine [] ?s = Inr ?s" by simp
  have t0: "m_timeout ?s \<le> 3600000" "terminated ?s = []" by (simp_all add: started_def)
  from tracked_state_reference [OF r0 t0(1), of 9] t0(2)
  have b: "terminated (onTimer 9 3600000 ?s) = [(None, ''timeout'')]"
    by simp
  from r t a r0 t0 b show ?thesis by blast
qed

text \<open>
  C10 as stated fails once the engine has discarded the first state: after a call of the
  hook on the state at address 0 and a step of the engine that empties its store, the
  pointer is still that address, no state lies there, and a tick at the timeout passes
  the pointer on.
\<close>

theorem tracked_state_dangling_counterexample:
  "map_option m_currentState (after_run (run example_engine [Branch 0 (Symbolic 0) True, Engine [] 2]
       (started [(0x1000, 7)] [(0, example_state 0x1005)] 1))) = Some (Some 0)
   \<and> map_option tracked_state_live (after_run (run example_engine [Branch 0 (Symbolic 0) True, Engine [] 2]
       (started [(0x1000, 7)] [(0, example_state 0x1005)] 1))) = Some False
   \<and> map_option terminated (map_option (onTimer 9 3600000)
       (after_run (run example_engine [Branch 0 (Symbolic 0) True, Engine [] 2]
         (started [(0x1000, 7)] [(0, example_state 0x1005)] 1)))) = Some [(Some 0, ''timeout'')]"
  by (simp add: example_hook)
     (simp add: after_run_def tracked_state_live_def onTimer_def Let_def started_def)

subsection \<open>The visited sites\<close>

lemma hook_stepped:
  assumes "onStateForkDecide eng state c af w = Inr (w', af')"
  shows "\<exists>st. map_of (states w) state = Some st \<and>
           isStepped w' =
             (if is_ConstantExpr (simplifyExpr eng st c) then isStepped w
              else case find (site_pred (pc_reg st)) (retAddr w) of
                     None \<Rightarrow> isStepped w
                   | Some e \<Rightarrow> insert (fst e) (isStepped w))"
  using assms by (rule hook_cases) auto

lemma step_stepped:
  assumes "step eng ev w = Inr w'"
  shows "isStepped w \<subseteq> isStepped w' \<and> retAddr w' = retAddr w"
proof (cases ev)
  case (Branch state c af)
  with assms obtain af' where "onStateForkDecide eng state c af w = Inr (w', af')"
    by (cases "onStateForkDecide eng state c af w") auto
  from hook_frame(9) [OF this] hook_frame(3) [OF this] show ?thesis by simp
next
  case (Timer t1 t2)
  with assms show ?thesis by auto
next
  case (Opcode guestDataSize mem_read t1 t2)
  with assms show ?thesis
    by (auto simp: handleOpcodeInvocation_def split: option.splits if_splits)
next
  case (Engine hp n)
  with assms show ?thesis by auto
qed

lemma run_stepped:
  "run eng evs w = Inr w' \<Longrightarrow> isStepped w \<subseteq> isStepped w' \<and> retAddr w' = retAddr w"
proof (induction evs arbitrary: w)
  case Nil
  then show ?case by simp
next
  case (Cons ev evs)
  from Cons.prems obtain v where s: "step eng ev w = Inr v" and r: "run eng evs v = Inr w'"
    by (cases "step eng ev w") auto
  from Cons.IH [OF r] step_stepped [OF s] show ?case by auto
qed

text \<open>
  C4, as amended. \<^verbatim>\<open>isStepped\<close> is empty when the plugin starts; over any events that do
  not end the process it only grows, and the registry stays the same, so that a site
  goes from unvisited to visited at most once and never back. A call of the branch hook that returns marks nothing if
  the simplified condition is a constant or no site of the registry has the program
  counter in its window; otherwise it marks the first site of the registry that has, and
  only that one. Marking a site that is marked already changes nothing.
\<close>

theorem visited_flags:
  assumes "run eng evs w = Inr w'"
    and "onStateForkDecide eng state c af w' = Inr (w'', af')"
  shows "isStepped (started reg hp n) = {}
       \<and> isStepped w \<subseteq> isStepped w' \<and> isStepped w' \<subseteq> isStepped w''
       \<and> retAddr w' = retAddr w \<and> retAddr w'' = retAddr w'
       \<and> (\<exists>st. map_of (states w') state = Some st \<and>
             isStepped w'' =
               (if is_ConstantExpr (simplifyExpr eng st c) then isStepped w'
                else case find (site_pred (pc_reg st)) (retAddr w') of
                       None \<Rightarrow> isStepped w'
                     | Some e \<Rightarrow> insert (fst e) (isStepped w'))
           \<and> (\<forall>e. find (site_pred (pc_reg st)) (retAddr w') = Some e \<and> fst e \<in> isStepped w'
                  \<longrightarrow> isStepped w'' = isStepped w'))"
proof -
  from hook_stepped [OF assms(2)] obtain st where st: "map_of (states w') state = Some st"
    and eq: "isStepped w'' =
               (if is_ConstantExpr (simplifyExpr eng st c) then isStepped w'
                else case find (site_pred (pc_reg st)) (retAddr w') of
                       None \<Rightarrow> isStepped w'
                     | Some e \<Rightarrow> insert (fst e) (isStepped w'))"
    by blast
  from eq have idem: "\<forall>e. find (site_pred (pc_reg st)) (retAddr w') = Some e \<and> fst e \<in> isStepped w'
                  \<longrightarrow> isStepped w'' = isStepped w'"
    by (auto simp: insert_absorb)
  have "isStepped (started reg hp n) = {}" by (simp add: started_def)
  with run_stepped [OF assms(1)] hook_frame(9) [OF assms(2)] hook_frame(3) [OF assms(2)] st eq idem
  show ?thesis by blast
qed

theorem visited_flags_witness:
  "\<exists>w' w''. run example_engine [Branch 0 (Symbolic 0) True, Timer 9 10]
          (started [(0x1000, 7)] [(0, example_state 0x1005)] 1) = Inr w'
       \<and> onStateForkDecide example_engine 0 (Symbolic 0) True w' = Inr (w'', False)
       \<and> isStepped w' = {0x1000} \<and> isStepped w'' = {0x1000}"
proof -
  let ?s = "started [(0x1000 :: addr, 7 :: 32 word)] [(0, example_state 0x1005)] 1"
  obtain w' where r: "run example_engine [Branch 0 (Symbolic 0) True, Timer 9 10] ?s = Inr w'"
    and v: "isStepped w' = {0x1000}"
    and w': "w' = (started [(0x1000, 7)] [(0, example_state 0x1005)] 2)
          \<lparr>m_currentState := Some 0, constraintsCount := 1, solvedConstraints := 1,
           isStepped := {0x1000},
           statOfs := \<lparr>buffered = [], written = [Stats 9 1 0 1]\<rparr>,
           testCases := [(IdAddrCmp 0 0x1000 7,
                          handed (example_state 0x1005) 1 [0] [[0x41]] (IsZero (Symbolic 0)))]\<rparr>"
    using example_run by simp
  have "\<exists>w''. onStateForkDecide example_engine 0 (Symbolic 0) True w' = Inr (w'', False)"
    unfolding w'
    by (simp add: onStateForkDecide_def example_engine_def example_state_def started_def adopt_def
        site_pred_def generateTestcase_def clone_def Let_def store_put_def store_delete_def)
  then obtain w'' where h: "onStateForkDecide example_engine 0 (Symbolic 0) True w' = Inr (w'', False)"
    by blast
  from visited_flags [OF r h] v have "isStepped w'' = {0x1000}"
    by (auto simp: example_engine_def example_state_def site_pred_def started_def w' split: if_splits)
  with r h v show ?thesis by blast
qed

text \<open>
  C4 as stated fails. With the sites 0x1000 and 0x1008 registered, a branch at 0x100A is
  within the window of both, and the hook marks 0x1000 only. With the site 0x1000
  registered, a branch at 0x1005 whose simplified condition is a constant marks nothing.
\<close>

theorem visited_flags_counterexample:
  "site_pred 0x100A (0x1008, 2)
   \<and> map_option isStepped (returned (onStateForkDecide example_engine 0 (Symbolic 0) True
        (started [(0x1000, 1), (0x1008, 2)] [(0, example_state 0x100A)] 1))) = Some {0x1000}
   \<and> site_pred 0x1005 (0x1000, 7)
   \<and> map_option isStepped (returned (onStateForkDecide example_engine 0 (ConstantExpr True) True
        (started [(0x1000, 7)] [(0, example_state 0x1005)] 1))) = Some {}"
  by (simp add: onStateForkDecide_def example_engine_def example_state_def started_def adopt_def
      site_pred_def generateTestcase_def clone_def Let_def store_put_def store_delete_def returned_def)

subsection \<open>The order of lookup and evaluation\<close>

lemma hook_no_match:
  assumes "map_of (states w) state = Some st" "\<not> runningConcrete st"
    and "\<not> is_ConstantExpr (simplifyExpr eng st c)"
    and "find (site_pred (pc_reg st)) (retAddr w) = None"
  shows "onStateForkDecide eng state c af w = Inr (adopt state w, False)"
  using assms by (simp add: onStateForkDecide_def Let_def)

lemma hook_check_failed:
  assumes "map_of (states w) state = Some st" "\<not> runningConcrete st"
    and "\<not> is_ConstantExpr (simplifyExpr eng st c)"
    and "find (site_pred (pc_reg st)) (retAddr w) \<noteq> None"
    and "\<not> is_ConstantExpr (evaluate eng (concolics st) (simplifyExpr eng st c))"
  shows "onStateForkDecide eng state c af w = Inl CheckFailed"
proof -
  from assms(4) obtain e where "find (site_pred (pc_reg st)) (retAddr w) = Some e" by blast
  with assms show ?thesis
    by (cases e; cases "evaluate eng (concolics st) (simplifyExpr eng st c)")
       (simp_all add: onStateForkDecide_def Let_def)
qed

lemma hook_first_check_failed:
  assumes "map_of (states v) state = Some st" "\<not> runningConcrete st"
    and "\<not> is_ConstantExpr (simplifyExpr eng st c)"
    and "\<not> is_ConstantExpr (evaluate eng (concolics st) (simplifyExpr eng st c))"
  shows "onStateForkDecide_first eng state c af v = Inl CheckFailed"
  using assms
  by (cases "evaluate eng (concolics st) (simplifyExpr eng st c)")
     (simp_all add: onStateForkDecide_first_def Let_def)

text \<open>
  C5, as amended. Take a call of the branch hook on a state that is not running concrete,
  with a simplified condition that is not a constant and whose evaluation against the
  concolic assignment is not a constant either. In the second listing the registry is
  searched first: if no site matches, the hook returns without evaluating the
  condition, and nothing but \<^verbatim>\<open>m_currentState\<close> has changed; if a site matches, the run
  is aborted by the check. In the first listing the condition is evaluated before the
  addresses are searched, and the run is aborted by the check whatever the registry
  holds.
\<close>

theorem evaluation_and_lookup:
  assumes "map_of (states w) state = Some st" and "\<not> runningConcrete st"
    and "\<not> is_ConstantExpr (simplifyExpr eng st c)"
    and "\<not> is_ConstantExpr (evaluate eng (concolics st) (simplifyExpr eng st c))"
  shows "(find (site_pred (pc_reg st)) (retAddr w) = None \<longrightarrow>
            onStateForkDecide eng state c af w = Inr (adopt state w, False))
       \<and> (find (site_pred (pc_reg st)) (retAddr w) \<noteq> None \<longrightarrow>
            onStateForkDecide eng state c af w = Inl CheckFailed)
       \<and> (map_of (states v) state = Some st \<longrightarrow>
            onStateForkDecide_first eng state c af v = Inl CheckFailed)"
  using assms hook_no_match [of w state st eng c af] hook_check_failed [of w state st eng c af]
    hook_first_check_failed [of v state st eng c af]
  by blast

theorem evaluation_and_lookup_witness:
  "onStateForkDecide stuck_engine 0 (Symbolic 0) True
      (started [(0x1000, 7)] [(0, example_state 0x2000)] 1)
     = Inr (adopt 0 (started [(0x1000, 7)] [(0, example_state 0x2000)] 1), False)
   \<and> onStateForkDecide stuck_engine 0 (Symbolic 0) True
      (started [(0x1000, 7)] [(0, example_state 0x1005)] 1) = Inl CheckFailed
   \<and> onStateForkDecide_first stuck_engine 0 (Symbolic 0) True
      (started [0x1000] [(0, example_state 0x2000)] 1) = Inl CheckFailed"
proof -
  have a: "onStateForkDecide stuck_engine 0 (Symbolic 0) True
      (started [(0x1000, 7)] [(0, example_state 0x2000)] 1)
     = Inr (adopt 0 (started [(0x1000, 7)] [(0, example_state 0x2000)] 1), False)"
    using evaluation_and_lookup [of "started [(0x1000, 7)] [(0, example_state 0x2000)] 1" 0
        "example_state 0x2000" stuck_engine "Symbolic 0" True "started [0x1000] [(0, example_state 0x2000)] 1"]
    by (simp add: started_def example_state_def stuck_engine_def site_pred_def)
  have b: "onStateForkDecide stuck_engine 0 (Symbolic 0) True
      (started [(0x1000, 7)] [(0, example_state 0x1005)] 1) = Inl CheckFailed"
    using evaluation_and_lookup [of "started [(0x1000, 7)] [(0, example_state 0x1005)] 1" 0
        "example_state 0x1005" stuck_engine "Symbolic 0" True "started [0x1000] [(0, example_state 0x1005)] 1"]
    by (simp add: started_def example_state_def stuck_engine_def site_pred_def)
  have c: "onStateForkDecide_first stuck_engine 0 (Symbolic 0) True
      (started [0x1000] [(0, example_state 0x2000)] 1) = Inl CheckFailed"
    using evaluation_and_lookup [of "started [(0x1000, 7)] [(0, example_state 0x2000)] 1" 0
        "example_state 0x2000" stuck_engine "Symbolic 0" True "started [0x1000] [(0, example_state 0x2000)] 1"]
    by (simp add: started_def example_state_def stuck_engine_def site_pred_def)
  from a b c show ?thesis by blast
qed

text \<open>
  C5 as stated fails on the second listing: at the program counter 0x2000, which no site
  matches, a condition that is not a constant and does not evaluate to one leaves the
  hook returning, with the counters at 0 and the first state adopted.
\<close>

theorem evaluation_and_lookup_counterexample:
  "find (site_pred (pc_reg (example_state 0x2000))) [(0x1000, 7)] = None
   \<and> \<not> is_ConstantExpr (simplifyExpr stuck_engine (example_state 0x2000) (Symbolic 0))
   \<and> \<not> is_ConstantExpr (evaluate stuck_engine (concolics (example_state 0x2000))
           (simplifyExpr stuck_engine (example_state 0x2000) (Symbolic 0)))
   \<and> onStateForkDecide stuck_engine 0 (Symbolic 0) True
        (started [(0x1000, 7)] [(0, example_state 0x2000)] 1)
       = Inr ((started [(0x1000, 7)] [(0, example_state 0x2000)] 1)\<lparr>m_currentState := Some 0\<rparr>, False)"
  by (simp add: onStateForkDecide_def stuck_engine_def example_state_def started_def adopt_def
      site_pred_def Let_def)

subsection \<open>The shutdown report\<close>

lemma classify_eq:
  "classify es stepped (report, solvedBranch, failedBranch) =
     (report @ unvisited_sites es stepped,
      solvedBranch + of_nat (length (visited_sites es stepped)),
      failedBranch + of_nat (length (unvisited_sites es stepped)))"
  by (induction es arbitrary: report solvedBranch failedBranch)
     (simp_all add: visited_sites_def unvisited_sites_def)

lemma visited_unvisited_length:
  "length (visited_sites reg stepped) + length (unvisited_sites reg stepped) = length reg"
  unfolding visited_sites_def unvisited_sites_def
  by (rule sum_length_filter_compl)

text \<open>
  C9, as amended. Let the registry hold \<open>N\<close> sites, \<open>k\<close> of them visited. If
  \<^verbatim>\<open>failed.stats\<close> could be opened, \<^verbatim>\<open>onEngineShutdown\<close> writes to it the \<open>N - k\<close> sites that
  are not visited, address and id each, in the order of the registry, and after the row
  of \<^verbatim>\<open>onTimer\<close> it appends to the statistics file the row (user time, \<open>k\<close>, \<open>N - k\<close>, \<open>N\<close>),
  the two counts as \<^verbatim>\<open>unsigned int\<close>. If \<^verbatim>\<open>failed.stats\<close> could not be opened, no site is
  classified: there is no report and the closing row is (user time, 0, 0, \<open>N\<close>).
\<close>

theorem shutdown_report:
  "failedOfs (onEngineShutdown True t1 t2 t3 w) = Some (unvisited_sites (retAddr w) (isStepped w))
   \<and> written (statOfs (onEngineShutdown True t1 t2 t3 w)) =
       written (statOfs w) @ buffered (statOfs w) @
         [Stats t1 (solvedConstraints w) (unsolvedConstraints w) (constraintsCount w),
          Summary t3 (of_nat (length (visited_sites (retAddr w) (isStepped w))))
            (of_nat (length (unvisited_sites (retAddr w) (isStepped w))))
            (of_nat (length (retAddr w)))]
   \<and> buffered (statOfs (onEngineShutdown True t1 t2 t3 w)) = []
   \<and> length (visited_sites (retAddr w) (isStepped w)) + length (unvisited_sites (retAddr w) (isStepped w))
       = length (retAddr w)
   \<and> failedOfs (onEngineShutdown False t1 t2 t3 w) = None
   \<and> written (statOfs (onEngineShutdown False t1 t2 t3 w)) =
       written (statOfs w) @ buffered (statOfs w) @
         [Stats t1 (solvedConstraints w) (unsolvedConstraints w) (constraintsCount w),
          Summary t3 0 0 (of_nat (length (retAddr w)))]"
  by (simp add: onEngineShutdown_def classify_eq Let_def onTimer_statOfs put_def flush_def
      visited_unvisited_length)

theorem shutdown_report_witness:
  "failedOfs (onEngineShutdown True 1 2 3
      ((started [(0x1000, 7), (0x2000, 8), (0x3000, 9)] [] 0)\<lparr>isStepped := {0x2000}\<rparr>))
     = Some [(0x1000, 7), (0x3000, 9)]
   \<and> written (statOfs (onEngineShutdown True 1 2 3
      ((started [(0x1000, 7), (0x2000, 8), (0x3000, 9)] [] 0)\<lparr>isStepped := {0x2000}\<rparr>)))
     = [Stats 1 0 0 0, Summary 3 1 2 3]"
  using shutdown_report [of 1 2 3 "(started [(0x1000, 7), (0x2000, 8), (0x3000, 9)] [] 0)\<lparr>isStepped := {0x2000}\<rparr>"]
  by (simp add: started_def visited_sites_def unvisited_sites_def)

text \<open>
  C9 as stated fails when \<^verbatim>\<open>failed.stats\<close> cannot be opened: with three sites, one of
  them visited, there is no report and the closing row counts 0 visited and 0 unvisited
  sites.
\<close>

theorem shutdown_report_counterexample:
  "length (visited_sites [(0x1000, 7), (0x2000, 8), (0x3000, 9)] {0x2000}) = 1
   \<and> failedOfs (onEngineShutdown False 1 2 3
      ((started [(0x1000, 7), (0x2000, 8), (0x3000, 9)] [] 0)\<lparr>isStepped := {0x2000}\<rparr>)) = None
   \<and> written (statOfs (onEngineShutdown False 1 2 3
      ((started [(0x1000, 7), (0x2000, 8), (0x3000, 9)] [] 0)\<lparr>isStepped := {0x2000}\<rparr>)))
     = [Stats 1 0 0 0, Summary 3 0 0 3]"
  by (simp add: onEngineShutdown_def Let_def onTimer_def put_def flush_def started_def
      visited_sites_def)

subsection \<open>Reading the addresses\<close>

lemma extract_unsigned_failed:
  assumes "failbit s" "\<not> eofbit s" "extract_unsigned base s x = (s', x')"
  shows "failbit s' \<and> \<not> eofbit s' \<and> x' = x"
  using assms by (auto simp: extract_unsigned_def)

lemma read_loop_stuck:
  "failbit ifs \<Longrightarrow> \<not> eofbit ifs \<Longrightarrow> read_loop fuel ifs instRetAddr cmpId reg = None"
proof (induction fuel arbitrary: ifs instRetAddr cmpId reg)
  case 0
  then show ?case by simp
next
  case (Suc fuel)
  obtain ifs1 a where e1: "extract_unsigned 16 ifs instRetAddr = (ifs1, a)"
    by (cases "extract_unsigned 16 ifs instRetAddr")
  obtain ifs2 b where e2: "extract_unsigned 10 ifs1 cmpId = (ifs2, b)"
    by (cases "extract_unsigned 10 ifs1 cmpId")
  from extract_unsigned_failed [OF Suc.prems e1] have f1: "failbit ifs1" "\<not> eofbit ifs1"
    by simp_all
  from extract_unsigned_failed [OF f1 e2] have f2: "failbit ifs2" "\<not> eofbit ifs2"
    by simp_all
  from Suc.IH [OF f2] Suc.prems e1 e2 show ?case by simp
qed

lemma read_loop_first_stuck:
  "failbit ifs \<Longrightarrow> \<not> eofbit ifs \<Longrightarrow> read_loop_first fuel ifs instRetAddr reg = None"
proof (induction fuel arbitrary: ifs instRetAddr reg)
  case 0
  then show ?case by simp
next
  case (Suc fuel)
  obtain ifs1 a where e1: "extract_unsigned 16 ifs instRetAddr = (ifs1, a)"
    by (cases "extract_unsigned 16 ifs instRetAddr")
  from extract_unsigned_failed [OF Suc.prems e1] have f1: "failbit ifs1" "\<not> eofbit ifs1"
    by simp_all
  from Suc.IH [OF f1] Suc.prems e1 show ?case by simp
qed

text \<open>
  The loop does end on a file that can be read. Two lines, each ended by a newline, give
  two sites in the second listing and no message; in the first listing the last address
  is appended once more by the pass that meets the end of the file.
\<close>

lemma readSelectedRetAddr_example:
  "readSelectedRetAddr (Suc (Suc (Suc (Suc 0))))
     (Some (''1000 7'' @ [CHR 0x0A] @ ''20f0 12'' @ [CHR 0x0A])) 0 0 []
     = Some ([], [(0x1000, 7), (0x20f0, 12)])"
  by (simp add: readSelectedRetAddr_def open_ifstream_def extract_unsigned_def isspace_def
      digit_of_def emplace_def Let_def)

lemma readSelectedRetAddr_first_example:
  "readSelectedRetAddr_first (Suc (Suc (Suc (Suc 0))))
     (Some (''1000'' @ [CHR 0x0A] @ ''20f0'' @ [CHR 0x0A])) 0 []
     = Some ([], [0x1000, 0x20f0, 0x20f0])"
  by (simp add: readSelectedRetAddr_first_def open_ifstream_def extract_unsigned_def isspace_def
      digit_of_def Let_def)

text \<open>
  C6, for a file \<^verbatim>\<open>ret_addr\<close> that cannot be opened. The stream has \<^verbatim>\<open>failbit\<close> and not
  \<^verbatim>\<open>eofbit\<close>; no extraction changes that, so the condition \<^verbatim>\<open>!ifs.eof()\<close> stays true:
  whatever bound is put on the number of passes, \<^verbatim>\<open>readSelectedRetAddr\<close> has not
  returned within it, in either listing, and neither has \<^verbatim>\<open>initialize\<close>.
\<close>

theorem missing_file_never_loaded:
  "readSelectedRetAddr fuel None instRetAddr cmpId reg = None
   \<and> readSelectedRetAddr_first fuel None instRetAddr reg1 = None
   \<and> initialize True fuel None instRetAddr cmpId hp n = None"
  by (simp add: readSelectedRetAddr_def readSelectedRetAddr_first_def initialize_def
      open_ifstream_def read_loop_stuck read_loop_first_stuck)

subsection \<open>The site test\<close>

lemma site_pred_iff:
  "site_pred pc (a, i) \<longleftrightarrow> 0 \<le> uint pc - uint a \<and> uint pc - uint a < 0x10"
proof (cases "pc < a")
  case True
  then show ?thesis by (simp add: site_pred_def word_less_def)
next
  case False
  then have le: "uint a \<le> uint pc" by (simp add: word_less_def)
  then have "uint (pc - a) = uint pc - uint a"
    by (simp add: uint_sub_if')
  moreover have "(pc - a < 0x10) = (uint (pc - a) < 0x10)"
    by (simp add: word_less_def)
  ultimately show ?thesis using False le by (simp add: site_pred_def)
qed

lemma sint64:
  fixes d :: "64 word"
  shows "sint d = (if uint d < 2 ^ 63 then uint d else uint d - 2 ^ 64)"
proof -
  have b: "0 \<le> uint d" "uint d < 2 ^ 64"
    using uint_bounded [of d] by simp_all
  have s: "sint d = (uint d + 2 ^ 63) mod 2 ^ 64 - 2 ^ 63"
    by (simp add: sint_uint signed_take_bit_eq_take_bit_shift take_bit_eq_mod)
  show ?thesis
  proof (cases "uint d < 2 ^ 63")
    case True
    with b have "(uint d + 2 ^ 63) mod 2 ^ 64 = uint d + 2 ^ 63"
      by (intro mod_pos_pos_trivial) simp_all
    with s True show ?thesis by simp
  next
    case False
    have "(uint d + 2 ^ 63) mod 2 ^ 64 = (uint d + 2 ^ 63 - 2 ^ 64) mod 2 ^ 64"
      by (simp only: minus_mod_self2)
    also from b False have "\<dots> = uint d + 2 ^ 63 - 2 ^ 64"
      by (intro mod_pos_pos_trivial) simp_all
    finally show ?thesis using s False by simp
  qed
qed

lemma uminus64:
  fixes d :: "64 word"
  shows "uint (- d) = (if uint d = 0 then 0 else 2 ^ 64 - uint d)"
proof -
  have b: "0 \<le> uint d" "uint d < 2 ^ 64"
    using uint_bounded [of d] by simp_all
  have "uint (- d) = (- uint d) mod 2 ^ 64"
    by (simp add: uint_word_ariths)
  also from b have "\<dots> = (if uint d = 0 then 0 else 2 ^ 64 - uint d)"
    by (simp add: zmod_zminus1_eq_if)
  finally show ?thesis .
qed

lemma abs_ll_cases:
  "sint (abs_ll d) < 0x10 \<longleftrightarrow> d < 0x10 \<or> - d < 0x10 \<or> d = 0x8000000000000000"
proof -
  have b: "0 \<le> uint d" "uint d < 2 ^ 64"
    using uint_bounded [of d] by simp_all
  have e: "d = 0x8000000000000000 \<longleftrightarrow> uint d = 2 ^ 63"
    by (simp add: word_uint_eq_iff)
  show ?thesis
    unfolding abs_ll_def e word_less_def
    using b by (auto simp: sint64 uminus64 split: if_splits)
qed

lemma near_first_iff:
  "near_first pc a \<longleftrightarrow> pc - a < 0x10 \<or> a - pc < 0x10 \<or> pc - a = 0x8000000000000000"
  using abs_ll_cases [of "pc - a"] by (simp add: near_first_def)

lemma sint_abs_ll:
  assumes "sint d \<noteq> - (2 ^ 63)"
  shows "sint (abs_ll d) = \<bar>sint d\<bar>"
proof -
  have b: "0 \<le> uint d" "uint d < 2 ^ 64"
    using uint_bounded [of d] by simp_all
  from assms b show ?thesis
    by (auto simp: abs_ll_def sint64 [of d] sint64 [of "- d"] uminus64 split: if_splits)
qed

lemma sint_diff64:
  fixes x y :: "64 word"
  assumes "- (2 ^ 63) \<le> sint x - sint y" and "sint x - sint y < 2 ^ 63"
  shows "sint (x - y) = sint x - sint y"
  using assms by (simp add: sint_word_ariths signed_take_bit_int_eq_self)

lemma near_first_no_overflow:
  assumes "- (2 ^ 63) < sint pc - sint a" and "sint pc - sint a < 2 ^ 63"
  shows "near_first pc a \<longleftrightarrow> \<bar>sint pc - sint a\<bar> < 0x10"
proof -
  from assms have d: "sint (pc - a) = sint pc - sint a"
    by (intro sint_diff64) simp_all
  with assms(1) have "sint (pc - a) \<noteq> - (2 ^ 63)" by simp
  from sint_abs_ll [OF this] d show ?thesis by (simp add: near_first_def)
qed

lemma is_uncovered_first_iff:
  "is_uncovered_first pc as \<longleftrightarrow> (\<exists>a \<in> set as. near_first pc a)"
  by (induction as) auto

text \<open>
  C1, as amended. In the second listing the predicate of the lookup holds of a site with
  address \<open>a\<close> exactly when \<open>0 \<le> pc - a < 0x10\<close>, so that a \<open>pc\<close> below \<open>a\<close> and a \<open>pc\<close>
  with \<open>pc - a \<ge> 0x10\<close> never match, and \<^verbatim>\<open>find_if\<close> yields the first site of the registry
  for which it holds, or none when it holds of no site. The loop of the first listing
  finds an address \<open>b\<close> exactly when one of the 64-bit differences \<open>pc - b\<close> and \<open>b - pc\<close>
  is below 0x10, or \<open>pc - b\<close> is \<open>2\<^sup>6\<^sup>3\<close>, the least \<^verbatim>\<open>long long\<close>, which \<^verbatim>\<open>abs\<close> leaves
  negative: there a \<open>pc\<close> up to 0xF below \<open>b\<close> matches as well. Where the signed
  subtraction does not overflow and does not give the least value, this is the test
  \<open>|pc - b| < 0x10\<close> on the signed values.
\<close>

theorem site_lookup_window:
  "(site_pred pc (a, i) \<longleftrightarrow> 0 \<le> uint pc - uint a \<and> uint pc - uint a < 0x10)
   \<and> (pc < a \<longrightarrow> \<not> site_pred pc (a, i))
   \<and> (a \<le> pc \<and> 0x10 \<le> pc - a \<longrightarrow> \<not> site_pred pc (a, i))
   \<and> (find (site_pred pc) reg = None \<longleftrightarrow> (\<forall>e \<in> set reg. \<not> site_pred pc e))
   \<and> (\<forall>e. find (site_pred pc) reg = Some e \<longrightarrow>
         (\<exists>k < length reg. reg ! k = e \<and> site_pred pc e \<and> (\<forall>j < k. \<not> site_pred pc (reg ! j))))
   \<and> (is_uncovered_first pc as \<longleftrightarrow>
        (\<exists>b \<in> set as. pc - b < 0x10 \<or> b - pc < 0x10 \<or> pc - b = 0x8000000000000000))
   \<and> (\<forall>b. - (2 ^ 63) < sint pc - sint b \<and> sint pc - sint b < 2 ^ 63 \<longrightarrow>
         (is_uncovered_first pc [b] \<longleftrightarrow> \<bar>sint pc - sint b\<bar> < 0x10))"
proof -
  have below: "pc < a \<longrightarrow> \<not> site_pred pc (a, i)"
    by (simp add: site_pred_def)
  have beyond: "a \<le> pc \<and> 0x10 \<le> pc - a \<longrightarrow> \<not> site_pred pc (a, i)"
    by (auto simp: site_pred_def)
  have none: "find (site_pred pc) reg = None \<longleftrightarrow> (\<forall>e \<in> set reg. \<not> site_pred pc e)"
    by (auto simp: find_None_iff)
  have some: "\<forall>e. find (site_pred pc) reg = Some e \<longrightarrow>
         (\<exists>k < length reg. reg ! k = e \<and> site_pred pc e \<and> (\<forall>j < k. \<not> site_pred pc (reg ! j)))"
    unfolding find_Some_iff by blast
  have first: "is_uncovered_first pc as \<longleftrightarrow>
        (\<exists>b \<in> set as. pc - b < 0x10 \<or> b - pc < 0x10 \<or> pc - b = 0x8000000000000000)"
    by (simp add: is_uncovered_first_iff near_first_iff)
  have signed: "\<forall>b. - (2 ^ 63) < sint pc - sint b \<and> sint pc - sint b < 2 ^ 63 \<longrightarrow>
         (is_uncovered_first pc [b] \<longleftrightarrow> \<bar>sint pc - sint b\<bar> < 0x10)"
    using near_first_no_overflow [of pc] by simp
  show ?thesis
    using site_pred_iff [of pc a i] below beyond none some first signed
    by (intro conjI)
qed

theorem site_lookup_window_witness:
  "site_pred 0x1005 (0x1000, 7) \<and> \<not> site_pred 0xFF8 (0x1000, 7) \<and> \<not> site_pred 0x1010 (0x1000, 7)
   \<and> find (site_pred 0x1005) [(0x2000, 1), (0x1000, 7)] = Some (0x1000, 7)
   \<and> find (site_pred 0x3000) [(0x2000, 1), (0x1000, 7)] = None
   \<and> is_uncovered_first 0xFF8 [0x1000]
   \<and> \<not> is_uncovered_first 0xFF0 [0x1000]
   \<and> is_uncovered_first 0x7FFFFFFFFFFFFFFF [0x8000000000000005]
   \<and> is_uncovered_first 0x8000000000000000 [0]"
  using site_lookup_window [of "0x1005" "0x1000" 7 "[(0x2000, 1), (0x1000, 7)]" "[0x1000]"]
    site_lookup_window [of "0xFF8" "0x1000" 7 "[(0x2000, 1), (0x1000, 7)]" "[0x1000]"]
    site_lookup_window [of "0x1010" "0x1000" 7 "[(0x2000, 1), (0x1000, 7)]" "[0x1000]"]
    site_lookup_window [of "0xFF0" "0x1000" 7 "[(0x2000, 1), (0x1000, 7)]" "[0x1000]"]
    site_lookup_window [of "0x7FFFFFFFFFFFFFFF" "0x1000" 7 "[(0x2000, 1), (0x1000, 7)]" "[0x8000000000000005]"]
    site_lookup_window [of "0x8000000000000000" "0x1000" 7 "[(0x2000, 1), (0x1000, 7)]" "[0]"]
  by (simp add: site_pred_def near_first_def abs_ll_def)

text \<open>
  C1 as stated fails on the first listing: with the address 0x1000 registered, the
  program counter 0xFF8, which is less than the address, is found.
\<close>

theorem site_lookup_first_listing_counterexample:
  "is_uncovered_first 0xFF8 [0x1000] \<and> (0xFF8 :: addr) < 0x1000"
  by (simp add: near_first_def abs_ll_def)

end
